theory Spec2Isabelle
  imports Complex_Main "HOL-Library.AList"
begin

section \<open>Inference utilities of the separation engine (utils.py)\<close>

text \<open>
  Samples are 32-bit floats in the source. They are modelled by the real numbers: every
  statement below is about the exact arithmetic of the algorithms, not about rounding.
  Sizes taken from the configuration (chunk size, overlap, batch size) are natural numbers.
\<close>

subsection \<open>Errors\<close>

datatype error =
    ZeroDivisionError      \<comment> \<open>\<open>chunk_size // num_overlap\<close> with \<open>num_overlap = 0\<close>\<close>
  | RuntimeError           \<comment> \<open>torch: shapes that do not fit in a slice assignment or a padding\<close>
  | BackendShapeError      \<comment> \<open>the backend returned a tensor outside its contract\<close>
  | KeyError               \<comment> \<open>a dictionary is indexed at a missing key\<close>
  | AttributeError         \<comment> \<open>\<open>.shape\<close> of a value that is no tensor\<close>
  | ValueError             \<comment> \<open>numpy: operands of different shapes\<close>
  | TypeError              \<comment> \<open>a value of the wrong kind, such as an array used as a key\<close>

definition bind_err :: "error + 'a \<Rightarrow> ('a \<Rightarrow> error + 'b) \<Rightarrow> error + 'b" where
  "bind_err r f = (case r of Inl e \<Rightarrow> Inl e | Inr x \<Rightarrow> f x)"

subsection \<open>\<open>_getWindowingArray\<close>\<close>

text \<open>
  \<open>torch.linspace(a, b, n)\<close>: \<open>n\<close> evenly spaced points from \<open>a\<close> to \<open>b\<close>, both included;
  the single point \<open>a\<close> when \<open>n = 1\<close>, nothing when \<open>n = 0\<close>.
\<close>

definition linspace :: "real \<Rightarrow> real \<Rightarrow> nat \<Rightarrow> real list" where
  "linspace a b n =
     (if n = 1 then [a]
      else map (\<lambda>k. a + real k * (b - a) / real (n - 1)) [0..<n])"

text \<open>
  \<open>w[lo:hi] = v\<close> for a tensor \<open>v\<close>, with \<open>lo \<le> hi \<le> len(w)\<close> already normalised: the
  value must have the length of the slice, or length one (it is then broadcast);
  otherwise torch raises.
\<close>

definition assign_slice :: "nat \<Rightarrow> nat \<Rightarrow> real list \<Rightarrow> real list \<Rightarrow> error + real list" where
  "assign_slice lo hi v w =
     (if length v = hi - lo then Inr (take lo w @ v @ drop hi w)
      else if length v = 1 then Inr (take lo w @ replicate (hi - lo) (hd v) @ drop hi w)
      else Inl RuntimeError)"

text \<open>\<open>w[lo:hi] = c\<close> for a scalar \<open>c\<close>.\<close>

definition fill_slice :: "nat \<Rightarrow> nat \<Rightarrow> real \<Rightarrow> real list \<Rightarrow> real list" where
  "fill_slice lo hi c w = take lo w @ replicate (hi - lo) c @ drop hi w"

text \<open>
  Start of the Python slice \<open>[-f:]\<close> on a sequence of length \<open>n\<close>: \<open>-0\<close> is \<open>0\<close>, so the
  slice is the whole sequence when \<open>f = 0\<close>; otherwise it holds the last \<open>f\<close> items (all of
  them when \<open>f > n\<close>).
\<close>

definition tail_start :: "nat \<Rightarrow> nat \<Rightarrow> nat" where
  "tail_start n f = (if f = 0 then 0 else n - f)"

definition getWindowingArray :: "nat \<Rightarrow> nat \<Rightarrow> error + real list" where
  "getWindowingArray window_size fade_size =
     (let fadein = linspace 0 1 fade_size;
          fadeout = linspace 1 0 fade_size;
          window = replicate window_size (1::real)
      in bind_err (assign_slice (tail_start window_size fade_size) window_size fadeout window)
           (\<lambda>window. assign_slice 0 (min fade_size window_size) fadein window))"

subsection \<open>Tensors and padding\<close>

text \<open>
  Tensors are nested lists, the time axis innermost: a buffer is channels by samples, the
  accumulators are instruments by channels by samples, a backend output is batch by
  instruments by channels by samples. A buffer has at least one channel and all its
  channels have the same length (\<open>wf_mix\<close>); \<open>nsamples\<close> is then \<open>shape[-1]\<close>.
\<close>

type_synonym tensor2 = "real list list"
type_synonym tensor3 = "real list list list"
type_synonym tensor4 = "real list list list list"

definition nsamples :: "tensor2 \<Rightarrow> nat" where
  "nsamples m = (case m of [] \<Rightarrow> 0 | c # _ \<Rightarrow> length c)"

definition wf_mix :: "tensor2 \<Rightarrow> bool" where
  "wf_mix m = (m \<noteq> [] \<and> list_all (\<lambda>c. length c = nsamples m) m)"

definition zeros3 :: "nat \<Rightarrow> nat \<Rightarrow> nat \<Rightarrow> tensor3" where
  "zeros3 a b c = replicate a (replicate b (replicate c 0))"

definition has_shape3 :: "nat \<Rightarrow> nat \<Rightarrow> nat \<Rightarrow> tensor3 \<Rightarrow> bool" where
  "has_shape3 a b c t =
     (length t = a \<and> list_all (\<lambda>u. length u = b \<and> list_all (\<lambda>v. length v = c) u) t)"

definition has_shape4 :: "nat \<Rightarrow> nat \<Rightarrow> nat \<Rightarrow> nat \<Rightarrow> tensor4 \<Rightarrow> bool" where
  "has_shape4 n a b c t = (length t = n \<and> list_all (has_shape3 a b c) t)"

text \<open>
  \<open>nn.functional.pad(x, (l, r), mode="reflect")\<close> on the last axis mirrors the signal about
  its first and its last sample, without repeating them; torch raises unless both pads
  are shorter than the axis. \<open>mode="constant", value=0\<close> appends zeros.
\<close>

definition reflect :: "nat \<Rightarrow> nat \<Rightarrow> real list \<Rightarrow> real list" where
  "reflect l r xs = rev (take l (tl xs)) @ xs @ take r (tl (rev xs))"

definition pad_reflect :: "nat \<Rightarrow> nat \<Rightarrow> tensor2 \<Rightarrow> error + tensor2" where
  "pad_reflect l r m =
     (if l < nsamples m \<and> r < nsamples m then Inr (map (reflect l r) m) else Inl RuntimeError)"

definition pad_constant :: "nat \<Rightarrow> nat \<Rightarrow> tensor2 \<Rightarrow> tensor2" where
  "pad_constant l r m = map (\<lambda>xs. replicate l 0 @ xs @ replicate r 0) m"

subsection \<open>\<open>prefer_target_instrument\<close>\<close>

record config =
  audio_chunk_size :: nat
  inference_num_overlap :: nat
  inference_batch_size :: nat
  training_instruments :: "string list"
  training_target_instrument :: "string option"
  training_samplerate :: nat
  training_segment :: nat

text \<open>A missing, \<open>None\<close> or empty \<open>target_instrument\<close> is falsy.\<close>

definition prefer_target_instrument :: "config \<Rightarrow> string list" where
  "prefer_target_instrument cfg =
     (case training_target_instrument cfg of
        None \<Rightarrow> training_instruments cfg
      | Some t \<Rightarrow> if t \<noteq> [] then [t] else training_instruments cfg)"

subsection \<open>\<open>demix\<close>: the chunk loop\<close>

datatype mode = Generic | Demucs

text \<open>The values \<open>demix\<close> fixes before its loop.\<close>

record plan =
  p_mode :: mode
  p_chunk_size :: nat
  p_step :: nat
  p_batch_size :: nat
  p_fade_size :: nat
  p_windowing_array :: "real list"
  p_num_instruments :: nat

text \<open>
  The variables of the loop. \<open>trace\<close> is not in the source: it records, for every chunk
  that is accumulated, its placement \<open>(start, seg_len)\<close> and the window it is accumulated
  with (\<open>None\<close> in demucs mode, which uses no window).
\<close>

record loop_state =
  idx :: nat
  batch_data :: "tensor2 list"
  batch_locations :: "(nat \<times> nat) list"
  result :: tensor3
  counter :: tensor3
  trace :: "((nat \<times> nat) \<times> real list option) list"

text \<open>\<open>r[start:start+len(v)] += v\<close>, the slice lying inside \<open>r\<close>.\<close>

definition add_slice :: "nat \<Rightarrow> real list \<Rightarrow> real list \<Rightarrow> real list" where
  "add_slice start v r =
     take start r @ map2 (+) (take (length v) (drop start r)) v @ drop (start + length v) r"

text \<open>
  The window of a batch, chosen once per batch after the index has advanced to \<open>i\<close>:
  \<open>if i - step == 0: window[:fade_size] = 1  elif i >= mix.shape[1]: window[-fade_size:] = 1\<close>.
\<close>

definition batch_window :: "plan \<Rightarrow> nat \<Rightarrow> nat \<Rightarrow> real list" where
  "batch_window p i L =
     (let window = p_windowing_array p in
      if i - p_step p = 0 then fill_slice 0 (min (p_fade_size p) (length window)) 1 window
      else if i \<ge> L then
        fill_slice (tail_start (length window) (p_fade_size p)) (length window) 1 window
      else window)"

text \<open>
  One chunk of a batch added into the accumulators:
  \<open>result[..., start:start+seg_len] += x[j, ..., :seg_len] * window[..., :seg_len]\<close> and
  \<open>counter[..., start:start+seg_len] += window[..., :seg_len]\<close> in generic mode,
  \<open>+= x[j, ..., :seg_len]\<close> and \<open>+= 1.0\<close> in demucs mode.
\<close>

definition accumulate_generic ::
  "real list \<Rightarrow> (nat \<times> nat) \<times> tensor3 \<Rightarrow> tensor3 \<times> tensor3 \<Rightarrow> tensor3 \<times> tensor3" where
  "accumulate_generic window lx acc =
     (case lx of ((start, seg_len), xj) \<Rightarrow>
        (map2 (map2 (\<lambda>r xs. add_slice start
                 (map2 (*) (take seg_len xs) (take seg_len window)) r)) (fst acc) xj,
         map (map (add_slice start (take seg_len window))) (snd acc)))"

definition accumulate_demucs ::
  "(nat \<times> nat) \<times> tensor3 \<Rightarrow> tensor3 \<times> tensor3 \<Rightarrow> tensor3 \<times> tensor3" where
  "accumulate_demucs lx acc =
     (case lx of ((start, seg_len), xj) \<Rightarrow>
        (map2 (map2 (\<lambda>r xs. add_slice start (take seg_len xs) r)) (fst acc) xj,
         map (map (add_slice start (replicate seg_len 1))) (snd acc)))"

text \<open>
  The \<open>for j, (start, seg_len) in enumerate(batch_locations)\<close> body: the window is
  \<open>Some\<close> in generic mode and \<open>None\<close> in demucs mode.
\<close>

definition accumulate ::
  "real list option \<Rightarrow> (nat \<times> nat) \<times> tensor3 \<Rightarrow> tensor3 \<times> tensor3 \<Rightarrow> tensor3 \<times> tensor3" where
  "accumulate window lx acc =
     (case window of Some w \<Rightarrow> accumulate_generic w lx acc | None \<Rightarrow> accumulate_demucs lx acc)"

text \<open>
  The body of \<open>while i < mix.shape[1]\<close>. The backend \<open>model\<close> stands for whichever of the
  four execution paths is selected, with its pre- and post-processing: it takes the
  stacked batch and must return a tensor of shape (batch, instruments, channels,
  chunk size); any other shape is reported as \<open>BackendShapeError\<close>.
\<close>

definition demix_step ::
  "plan \<Rightarrow> (tensor3 \<Rightarrow> tensor4) \<Rightarrow> tensor2 \<Rightarrow> loop_state \<Rightarrow> error + loop_state" where
  "demix_step p model mix st =
     (let i = idx st;
          part = map (\<lambda>c. take (p_chunk_size p) (drop i c)) mix;
          chunk_len = nsamples part
      in bind_err
           (if p_mode p = Generic \<and> chunk_len > p_chunk_size p div 2
            then pad_reflect 0 (p_chunk_size p - chunk_len) part
            else Inr (pad_constant 0 (p_chunk_size p - chunk_len) part))
           (\<lambda>part.
              let bd = batch_data st @ [part];
                  bl = batch_locations st @ [(i, chunk_len)];
                  i = i + p_step p
              in if length bd \<ge> p_batch_size p \<or> i \<ge> nsamples mix then
                   let x = model bd in
                   if \<not> has_shape4 (length bd) (p_num_instruments p) (length mix) (p_chunk_size p) x
                   then Inl BackendShapeError
                   else
                     let window = (if p_mode p = Generic
                                   then Some (batch_window p i (nsamples mix)) else None);
                         acc = fold (accumulate window) (zip bl x) (result st, counter st)
                     in Inr (st\<lparr>idx := i, batch_data := [], batch_locations := [],
                               result := fst acc, counter := snd acc,
                               trace := trace st @ map (\<lambda>l. (l, window)) bl\<rparr>)
                 else Inr (st\<lparr>idx := i, batch_data := bd, batch_locations := bl\<rparr>)))"

text \<open>
  The loop itself. It need not terminate (\<open>step = 0\<close>): not returning is the value \<open>None\<close>.
\<close>

partial_function (option) demix_loop ::
  "plan \<Rightarrow> (tensor3 \<Rightarrow> tensor4) \<Rightarrow> tensor2 \<Rightarrow> loop_state \<Rightarrow> (error + loop_state) option" where
  "demix_loop p model mix st =
     (if idx st < nsamples mix then
        (case demix_step p model mix st of
           Inl e \<Rightarrow> Some (Inl e)
         | Inr st' \<Rightarrow> demix_loop p model mix st')
      else Some (Inr st))"

declare demix_loop.simps [code]

subsection \<open>\<open>demix\<close>: set-up and final normalisation\<close>

text \<open>
  \<open>mode\<close> is \<open>demucs\<close> only for an \<open>htdemucs\<close> model run through one of the exported
  back ends; every other call is \<open>generic\<close>.
\<close>

definition demix_mode :: "string \<Rightarrow> bool \<Rightarrow> bool \<Rightarrow> bool \<Rightarrow> mode" where
  "demix_mode model_type use_onnx use_tensorrt use_compile =
     (if (use_onnx \<or> use_tensorrt \<or> use_compile) \<and> model_type = ''htdemucs''
      then Demucs else Generic)"

definition floordiv :: "nat \<Rightarrow> nat \<Rightarrow> error + nat" where
  "floordiv a b = (if b = 0 then Inl ZeroDivisionError else Inr (a div b))"

text \<open>
  The processing parameters. In demucs mode the source defines neither \<open>fade_size\<close> nor
  \<open>windowing_array\<close>, and never reads them; the plan holds 0 and the empty list there.
\<close>

definition demix_plan :: "config \<Rightarrow> mode \<Rightarrow> error + plan" where
  "demix_plan cfg m =
     (case m of
        Demucs \<Rightarrow>
          (let chunk_size = training_samplerate cfg * training_segment cfg in
           bind_err (floordiv chunk_size (inference_num_overlap cfg))
             (\<lambda>step. Inr \<lparr>p_mode = Demucs, p_chunk_size = chunk_size, p_step = step,
                            p_batch_size = inference_batch_size cfg, p_fade_size = 0,
                            p_windowing_array = [],
                            p_num_instruments = length (training_instruments cfg)\<rparr>))
      | Generic \<Rightarrow>
          (let chunk_size = audio_chunk_size cfg;
               fade_size = chunk_size div 10 in
           bind_err (floordiv chunk_size (inference_num_overlap cfg))
             (\<lambda>step. bind_err (getWindowingArray chunk_size fade_size)
                (\<lambda>windowing_array.
                   Inr \<lparr>p_mode = Generic, p_chunk_size = chunk_size, p_step = step,
                        p_batch_size = inference_batch_size cfg, p_fade_size = fade_size,
                        p_windowing_array = windowing_array,
                        p_num_instruments = length (prefer_target_instrument cfg)\<rparr>))))"

definition border :: "plan \<Rightarrow> nat" where
  "border p = p_chunk_size p - p_step p"

text \<open>\<open>if length_init > 2 * border and border > 0\<close>, in generic mode only.\<close>

definition padded :: "plan \<Rightarrow> nat \<Rightarrow> bool" where
  "padded p length_init = (p_mode p = Generic \<and> length_init > 2 * border p \<and> border p > 0)"

definition demix_pad :: "plan \<Rightarrow> tensor2 \<Rightarrow> error + tensor2" where
  "demix_pad p mix =
     (if padded p (nsamples mix) then pad_reflect (border p) (border p) mix else Inr mix)"

definition init_state :: "plan \<Rightarrow> tensor2 \<Rightarrow> loop_state" where
  "init_state p mix =
     \<lparr>idx = 0, batch_data = [], batch_locations = [],
      result = zeros3 (p_num_instruments p) (length mix) (nsamples mix),
      counter = zeros3 (p_num_instruments p) (length mix) (nsamples mix),
      trace = []\<rparr>"

text \<open>
  Everything up to the end of the loop: the plan, the padded buffer and the final state of
  the loop, an error, or \<open>None\<close> when the loop does not return.
\<close>

definition demix_run ::
  "config \<Rightarrow> (tensor3 \<Rightarrow> tensor4) \<Rightarrow> tensor2 \<Rightarrow> mode \<Rightarrow> (error + plan \<times> tensor2 \<times> loop_state) option" where
  "demix_run cfg model mix m =
     (case demix_plan cfg m of
        Inl e \<Rightarrow> Some (Inl e)
      | Inr p \<Rightarrow>
          (case demix_pad p mix of
             Inl e \<Rightarrow> Some (Inl e)
           | Inr mix' \<Rightarrow>
               (case demix_loop p model mix' (init_state p mix') of
                  None \<Rightarrow> None
                | Some (Inl e) \<Rightarrow> Some (Inl e)
                | Some (Inr st) \<Rightarrow> Some (Inr (p, mix', st)))))"

text \<open>
  \<open>result / counter\<close> is a float division: it never raises; a zero divisor gives NaN for
  \<open>0 / 0\<close> and a signed infinity otherwise. \<open>np.nan_to_num(x, nan=0.0)\<close> replaces NaN by 0
  and the infinities by the largest and the smallest finite float32.
\<close>

datatype fval = Finite real | PosInf | NegInf | NaN

definition fdiv :: "real \<Rightarrow> real \<Rightarrow> fval" where
  "fdiv a b =
     (if b \<noteq> 0 then Finite (a / b)
      else if a = 0 then NaN else if 0 < a then PosInf else NegInf)"

definition float32_max :: real where
  "float32_max = (2 - 1 / 2 ^ 23) * 2 ^ 127"

definition nan_to_num :: "fval \<Rightarrow> real" where
  "nan_to_num v =
     (case v of Finite r \<Rightarrow> r | NaN \<Rightarrow> 0 | PosInf \<Rightarrow> float32_max | NegInf \<Rightarrow> - float32_max)"

definition normalize :: "tensor3 \<Rightarrow> tensor3 \<Rightarrow> tensor3" where
  "normalize res cnt = map2 (map2 (map2 (\<lambda>r c. nan_to_num (fdiv r c)))) res cnt"

text \<open>\<open>estimated_sources[..., border:-border]\<close>, when the buffer was padded.\<close>

definition strip_border :: "plan \<Rightarrow> nat \<Rightarrow> tensor3 \<Rightarrow> tensor3" where
  "strip_border p length_init est =
     (if padded p length_init
      then map (map (\<lambda>r. drop (border p) (take (length r - border p) r))) est
      else est)"

text \<open>
  A Python dictionary keeps its keys in insertion order; storing at a key that is present
  replaces the value where it stands. \<open>{k: v for k, v in ps}\<close> stores the pairs in turn.
\<close>

definition dict_of :: "('k \<times> 'v) list \<Rightarrow> ('k \<times> 'v) list" where
  "dict_of ps = fold (\<lambda>kv d. AList.update (fst kv) (snd kv) d) ps []"

datatype demix_result = Raw tensor3 | Named "(string \<times> tensor2) list"

text \<open>
  \<open>estimated_sources\<close> after the division, the NaN replacement and the removal of the
  padding; the instrument list that labels its rows.
\<close>

definition estimated_sources :: "plan \<Rightarrow> tensor2 \<Rightarrow> loop_state \<Rightarrow> tensor3" where
  "estimated_sources p mix st =
     strip_border p (nsamples mix) (normalize (result st) (counter st))"

definition output_instruments :: "config \<Rightarrow> mode \<Rightarrow> string list" where
  "output_instruments cfg m =
     (if m = Demucs then training_instruments cfg else prefer_target_instrument cfg)"

definition finalize :: "config \<Rightarrow> tensor2 \<Rightarrow> plan \<times> tensor2 \<times> loop_state \<Rightarrow> demix_result" where
  "finalize cfg mix r =
     (case r of (p, mix', st) \<Rightarrow>
        (let ret_data = dict_of (zip (output_instruments cfg (p_mode p))
                                     (estimated_sources p mix st))
         in if p_mode p = Demucs \<and> p_num_instruments p \<le> 1
            then Raw (estimated_sources p mix st) else Named ret_data))"

definition demix ::
  "config \<Rightarrow> (tensor3 \<Rightarrow> tensor4) \<Rightarrow> tensor2 \<Rightarrow> string \<Rightarrow> bool \<Rightarrow> bool \<Rightarrow> bool
   \<Rightarrow> (error + demix_result) option" where
  "demix cfg model mix model_type use_onnx use_tensorrt use_compile =
     map_option (map_sum id (finalize cfg mix))
       (demix_run cfg model mix (demix_mode model_type use_onnx use_tensorrt use_compile))"

text \<open>The identity backend with one instrument: every chunk is returned as it came.\<close>

definition identity_model :: "tensor3 \<Rightarrow> tensor4" where
  "identity_model arr = map (\<lambda>part. [part]) arr"

subsection \<open>\<open>apply_tta\<close>\<close>









subsection \<open>\<open>load_not_compatible_weights\<close>\<close>

text \<open>
  A tensor is its shape and its entries, nested along the axes. \<open>has_shape\<close> says that the
  entries fit the shape; \<open>get\<close> reads the entry at a multi-index, \<open>None\<close> out of range.
\<close>

datatype nd = Leaf real | Node "nd list"

type_synonym tensor = "nat list \<times> nd"

fun has_shape :: "nat list \<Rightarrow> nd \<Rightarrow> bool" where
  "has_shape [] (Leaf x) = True"
| "has_shape (n # ns) (Node ts) = (length ts = n \<and> list_all (has_shape ns) ts)"
| "has_shape _ _ = False"

text \<open>\<open>np.zeros(shape)\<close>.\<close>

fun zeros :: "nat list \<Rightarrow> nd" where
  "zeros [] = Leaf 0"
| "zeros (n # ns) = Node (replicate n (zeros ns))"

fun get :: "nd \<Rightarrow> nat list \<Rightarrow> real option" where
  "get (Leaf x) [] = Some x"
| "get (Node ts) (i # is) = (if i < length ts then get (ts ! i) is else None)"
| "get _ _ = None"

text \<open>
  \<open>d[0:n1, 0:n2, \<dots>] = s\<close> for a source of shape \<open>(n1, n2, \<dots>)\<close>, and the slice
  \<open>t[0:n1, 0:n2, \<dots>]\<close>.
\<close>

fun set_low :: "nat list \<Rightarrow> nd \<Rightarrow> nd \<Rightarrow> nd" where
  "set_low [] d s = s"
| "set_low (n # ns) (Node ds) (Node ss) =
     Node (map2 (set_low ns) (take n ds) ss @ drop n ds)"
| "set_low (n # ns) d s = d"

fun slice_low :: "nat list \<Rightarrow> nd \<Rightarrow> nd" where
  "slice_low [] t = t"
| "slice_low (n # ns) (Node ts) = Node (map (slice_low ns) (take n ts))"
| "slice_low (n # ns) (Leaf x) = Leaf x"

text \<open>
  The body of the loop for one matching name: the source is taken as it is when the
  shapes agree, the parameter is left alone when the ranks differ; otherwise a zero
  matrix of the larger shape receives the source in its low corner (the source writes
  this assignment once per axis) and is cut to the shape of the parameter.
\<close>

definition reconcile :: "tensor \<Rightarrow> tensor \<Rightarrow> tensor" where
  "reconcile new old =
     (if fst new = fst old then old
      else if length (fst new) \<noteq> length (fst old) then new
      else
        (let ln = length (fst new);
             max_shape = map2 max (fst new) (fst old);
             max_matrix = ((\<lambda>m. set_low (fst old) m (snd old)) ^^ ln) (zeros max_shape)
         in (map2 min (fst new) max_shape, slice_low (fst new) max_matrix)))"

text \<open>
  What \<open>torch.load\<close> returns: a tensor, a dictionary, or something else. \<open>k in c\<close> and
  \<open>c[k]\<close> raise on what is no dictionary.
\<close>

datatype ckpt = Tensor tensor | Mapping "(string \<times> ckpt) list" | Other

definition contains :: "ckpt \<Rightarrow> string \<Rightarrow> error + bool" where
  "contains c k =
     (case c of Mapping m \<Rightarrow> Inr (k \<in> fst ` set m)
      | Tensor t \<Rightarrow> Inl RuntimeError
      | Other \<Rightarrow> Inl TypeError)"

definition getitem :: "ckpt \<Rightarrow> string \<Rightarrow> error + ckpt" where
  "getitem c k =
     (case c of Mapping m \<Rightarrow> (case map_of m k of Some v \<Rightarrow> Inr v | None \<Rightarrow> Inl KeyError)
      | _ \<Rightarrow> Inl TypeError)"

text \<open>
  \<open>if 'state' in old_model: old_model = old_model['state']\<close>, then the same for
  \<open>'state_dict'\<close>.
\<close>

definition unwrap_key :: "string \<Rightarrow> ckpt \<Rightarrow> error + ckpt" where
  "unwrap_key k old_model =
     bind_err (contains old_model k)
       (\<lambda>present. if present then getitem old_model k else Inr old_model)"

definition unwrap :: "ckpt \<Rightarrow> error + ckpt" where
  "unwrap old_model = bind_err (unwrap_key ''state'' old_model) (unwrap_key ''state_dict'')"

text \<open>
  \<open>for el in new_model\<close>, over the names of the model's state dictionary; \<open>.shape\<close> of a
  checkpoint value that is no tensor raises.
\<close>

fun reconcile_loop ::
  "string list \<Rightarrow> ckpt \<Rightarrow> (string \<times> tensor) list \<Rightarrow> error + (string \<times> tensor) list" where
  "reconcile_loop [] old_model new_model = Inr new_model"
| "reconcile_loop (el # els) old_model new_model =
     bind_err (contains old_model el)
       (\<lambda>present.
          if present then
            bind_err (getitem old_model el)
              (\<lambda>v. case v of
                      Tensor old \<Rightarrow>
                        (case map_of new_model el of
                           None \<Rightarrow> Inl KeyError
                         | Some new \<Rightarrow>
                             reconcile_loop els old_model
                               (AList.update el (reconcile new old) new_model))
                    | _ \<Rightarrow> Inl AttributeError)
          else reconcile_loop els old_model new_model)"

text \<open>
  \<open>model.load_state_dict\<close> (strict): the names and the shapes must be those of the model's
  parameters.
\<close>

definition load_state_dict ::
  "(string \<times> tensor) list \<Rightarrow> (string \<times> tensor) list \<Rightarrow> error + (string \<times> tensor) list" where
  "load_state_dict params state =
     (if map fst state = map fst params \<and> map (fst \<circ> snd) state = map (fst \<circ> snd) params
      then Inr state else Inl RuntimeError)"

definition load_not_compatible_weights ::
  "(string \<times> tensor) list \<Rightarrow> ckpt \<Rightarrow> error + (string \<times> tensor) list" where
  "load_not_compatible_weights model weights =
     bind_err (unwrap weights)
       (\<lambda>old_model. bind_err (reconcile_loop (map fst model) old_model model)
          (load_state_dict model))"

subsection \<open>Notions used in the proofs\<close>

text \<open>
  The loop with a bound on the number of iterations: \<open>None\<close> when the bound is reached
  before the loop condition fails.
\<close>

fun demix_loop_fuel ::
  "nat \<Rightarrow> plan \<Rightarrow> (tensor3 \<Rightarrow> tensor4) \<Rightarrow> tensor2 \<Rightarrow> loop_state \<Rightarrow> (error + loop_state) option" where
  "demix_loop_fuel 0 p model mix st =
     (if idx st < nsamples mix then None else Some (Inr st))"
| "demix_loop_fuel (Suc n) p model mix st =
     (if idx st < nsamples mix then
        (case demix_step p model mix st of
           Inl e \<Rightarrow> Some (Inl e)
         | Inr st' \<Rightarrow> demix_loop_fuel n p model mix st')
      else Some (Inr st))"

text \<open>
  What one iteration does, read off \<open>demix_step\<close>: whether the batch is processed, the
  window it is processed with, and the placements it holds.
\<close>

definition step_flushes :: "plan \<Rightarrow> tensor2 \<Rightarrow> loop_state \<Rightarrow> bool" where
  "step_flushes p mix st =
     (p_batch_size p \<le> Suc (length (batch_data st)) \<or> nsamples mix \<le> idx st + p_step p)"

definition step_window :: "plan \<Rightarrow> tensor2 \<Rightarrow> loop_state \<Rightarrow> real list option" where
  "step_window p mix st =
     (if p_mode p = Generic then Some (batch_window p (idx st + p_step p) (nsamples mix)) else None)"

definition step_locs :: "plan \<Rightarrow> tensor2 \<Rightarrow> loop_state \<Rightarrow> (nat \<times> nat) list" where
  "step_locs p mix st =
     batch_locations st @
       [(idx st, nsamples (map (\<lambda>c. take (p_chunk_size p) (drop (idx st) c)) mix))]"

text \<open>
  The \<open>j\<close>-th placement of the schedule over a buffer of \<open>L\<close> samples, and the invariant
  of the loop that ties the index to the placements recorded so far.
\<close>

definition placement :: "plan \<Rightarrow> nat \<Rightarrow> nat \<Rightarrow> nat \<times> nat" where
  "placement p L j = (j * p_step p, min (p_chunk_size p) (L - j * p_step p))"

definition sched_inv :: "plan \<Rightarrow> nat \<Rightarrow> loop_state \<Rightarrow> bool" where
  "sched_inv p L st =
     (\<exists>k. idx st = k * p_step p \<and>
          map fst (trace st) @ batch_locations st = map (placement p L) [0..<k] \<and>
          (L \<le> idx st \<longrightarrow> batch_locations st = []) \<and>
          (k = 0 \<or> (k - 1) * p_step p < L))"

text \<open>
  The contract of a backend: on a batch of chunks, each of the channels and the chunk size
  of the plan, it returns one output per chunk of shape (instruments, channels, chunk
  size).
\<close>

definition part_ok :: "plan \<Rightarrow> nat \<Rightarrow> tensor2 \<Rightarrow> bool" where
  "part_ok p nch part =
     (length part = nch \<and> list_all (\<lambda>c. length c = p_chunk_size p) part)"

definition backend_ok :: "plan \<Rightarrow> nat \<Rightarrow> (tensor3 \<Rightarrow> tensor4) \<Rightarrow> bool" where
  "backend_ok p nch model =
     (\<forall>bd. list_all (part_ok p nch) bd \<longrightarrow>
        has_shape4 (length bd) (p_num_instruments p) nch (p_chunk_size p) (model bd))"

text \<open>
  The invariant of the accumulators: a weight is never negative, and where the weight is
  zero the sum is zero too. \<open>acc_ok\<close> adds the shapes: as many rows as instruments, as many
  channels as the buffer, \<open>result\<close> and \<open>counter\<close> of one shape.
\<close>

definition cell_ok :: "real \<Rightarrow> real \<Rightarrow> bool" where
  "cell_ok r c = (0 \<le> c \<and> (c = 0 \<longrightarrow> r = 0))"

definition acc_ok :: "nat \<Rightarrow> nat \<Rightarrow> tensor3 \<times> tensor3 \<Rightarrow> bool" where
  "acc_ok ni nch acc =
     (length (fst acc) = ni \<and> (\<forall>row\<in>set (fst acc). length row = nch) \<and>
      list_all2 (list_all2 (list_all2 cell_ok)) (fst acc) (snd acc))"

text \<open>Further concrete configurations and buffers, used to evaluate \<open>demix\<close>.\<close>

definition round_cfg :: config where
  "round_cfg = \<lparr>audio_chunk_size = 20, inference_num_overlap = 4, inference_batch_size = 2,
     training_instruments = [''vocals''], training_target_instrument = None,
     training_samplerate = 0, training_segment = 0\<rparr>"

definition round_mix :: tensor2 where
  "round_mix = [[1, 2, 3, 4, 5, 6, 7, 8, 9, 10, 11, 12, 13, 14, 15, 16, 17, 18, 19, 20,
                 21, 22, 23, 24, 25]]"

definition edge_cfg :: config where
  "edge_cfg = \<lparr>audio_chunk_size = 20, inference_num_overlap = 2, inference_batch_size = 3,
     training_instruments = [''vocals''], training_target_instrument = None,
     training_samplerate = 0, training_segment = 0\<rparr>"

definition demucs_cfg :: config where
  "demucs_cfg = \<lparr>audio_chunk_size = 0, inference_num_overlap = 2, inference_batch_size = 4,
     training_instruments = [''vocals''], training_target_instrument = None,
     training_samplerate = 4, training_segment = 2\<rparr>"

text \<open>A small run used to instantiate the theorems.\<close>

definition example_plan :: plan where
  "example_plan = \<lparr>p_mode = Generic, p_chunk_size = 11, p_step = 5, p_batch_size = 2,
     p_fade_size = 1, p_windowing_array = [0, 1, 1, 1, 1, 1, 1, 1, 1, 1, 1],
     p_num_instruments = 1\<rparr>"

definition example_mix :: tensor2 where
  "example_mix = [[1, 2, 3, 4, 5, 6, 7, 8, 9, 10, 11, 12]]"






text \<open>
  The value the loader leaves at a name, and small checkpoints and models to evaluate it
  on; \<open>mat\<close> builds the entries of a matrix from its rows.
\<close>

definition mat :: "real list list \<Rightarrow> nd" where
  "mat rows = Node (map (\<lambda>r. Node (map Leaf r)) rows)"

definition reconciled :: "(string \<times> ckpt) list \<Rightarrow> string \<Rightarrow> tensor \<Rightarrow> tensor" where
  "reconciled old el new =
     (case map_of old el of Some (Tensor src) \<Rightarrow> reconcile new src | _ \<Rightarrow> new)"

definition params_a :: "(string \<times> ckpt) list" where
  "params_a = [(''w'', Tensor ([2, 3], mat [[1, 2, 3], [4, 5, 6]])),
               (''b'', Tensor ([2, 2], mat [[1, 2], [3, 4]]))]"

definition ckpt_a :: ckpt where
  "ckpt_a = Mapping [(''state'', Mapping params_a)]"

definition model_a :: "(string \<times> tensor) list" where
  "model_a = [(''w'', ([4, 3], mat [[7, 7, 7], [7, 7, 7], [7, 7, 7], [7, 7, 7]])),
              (''b'', ([2], Node [Leaf 8, Leaf 8])),
              (''c'', ([1], Node [Leaf 9]))]"

definition params_b :: "(string \<times> ckpt) list" where
  "params_b = [(''w'', Tensor ([4, 3], mat [[1, 2, 3], [4, 5, 6], [7, 8, 9], [10, 11, 12]]))]"

definition ckpt_b :: ckpt where
  "ckpt_b = Mapping [(''state_dict'', Mapping params_b)]"

definition model_b :: "(string \<times> tensor) list" where
  "model_b = [(''w'', ([2, 3], mat [[7, 7, 7], [7, 7, 7]]))]"

section \<open>Properties\<close>

subsection \<open>The window\<close>

lemma length_linspace: "length (linspace a b n) = n"
  by (simp add: linspace_def)

lemma nth_linspace:
  "k < n \<Longrightarrow> linspace a b n ! k = (if n = 1 then a else a + real k * (b - a) / real (n - 1))"
  by (auto simp add: linspace_def)

lemma getWindowingArray_eq:
  assumes "0 < fade_size" and "2 * fade_size \<le> window_size"
  shows "getWindowingArray window_size fade_size =
         Inr (linspace 0 1 fade_size @ replicate (window_size - 2 * fade_size) 1
              @ linspace 1 0 fade_size)"
proof -
  have a: "assign_slice (tail_start window_size fade_size) window_size (linspace 1 0 fade_size)
             (replicate window_size 1)
           = Inr (replicate (window_size - fade_size) 1 @ linspace 1 0 fade_size)"
    using assms by (simp add: assign_slice_def tail_start_def length_linspace)
  have b: "assign_slice 0 (min fade_size window_size) (linspace 0 1 fade_size)
             (replicate (window_size - fade_size) 1 @ linspace 1 0 fade_size)
           = Inr (linspace 0 1 fade_size @ replicate (window_size - 2 * fade_size) 1
                  @ linspace 1 0 fade_size)"
  proof -
    have m: "min fade_size window_size = fade_size" using assms by simp
    have d: "window_size - fade_size - fade_size = window_size - 2 * fade_size" by simp
    show ?thesis
      using assms unfolding m
      by (simp add: assign_slice_def length_linspace d)
  qed
  show ?thesis
    unfolding getWindowingArray_def Let_def a bind_err_def using b by simp
qed

text \<open>
  C5. For \<open>0 < fade_size \<le> window_size / 2\<close> the window is built without error, has
  \<open>window_size\<close> entries, rises linearly from 0 to 1 over the first \<open>fade_size\<close> entries
  (\<open>k / (fade_size - 1)\<close> at index \<open>k\<close>), is 1 from \<open>fade_size\<close> up to
  \<open>window_size - fade_size\<close>, and falls linearly from 1 to 0 over the last \<open>fade_size\<close>
  entries. With \<open>fade_size = 1\<close> each ramp is the single point where \<open>linspace\<close> starts: 0
  at the head and 1 at the tail.
\<close>

theorem window_shape:
  assumes "0 < fade_size" and "2 * fade_size \<le> window_size"
  shows "\<exists>w. getWindowingArray window_size fade_size = Inr w \<and> length w = window_size \<and>
           (\<forall>k<fade_size. w ! k = (if fade_size = 1 then 0 else real k / real (fade_size - 1))) \<and>
           (\<forall>k. fade_size \<le> k \<and> k < window_size - fade_size \<longrightarrow> w ! k = 1) \<and>
           (\<forall>k<fade_size. w ! (window_size - fade_size + k) =
               (if fade_size = 1 then 1 else 1 - real k / real (fade_size - 1)))"
proof -
  let ?w = "linspace 0 1 fade_size @ replicate (window_size - 2 * fade_size) 1
            @ linspace 1 0 fade_size"
  have e: "getWindowingArray window_size fade_size = Inr ?w"
    using assms by (rule getWindowingArray_eq)
  have l: "length ?w = window_size"
    using assms by (simp add: length_linspace)
  have h: "\<forall>k<fade_size. ?w ! k = (if fade_size = 1 then 0 else real k / real (fade_size - 1))"
    by (simp add: nth_append length_linspace nth_linspace)
  have m: "\<forall>k. fade_size \<le> k \<and> k < window_size - fade_size \<longrightarrow> ?w ! k = 1"
    by (auto simp add: nth_append length_linspace)
  have t: "\<forall>k<fade_size. ?w ! (window_size - fade_size + k) =
             (if fade_size = 1 then 1 else 1 - real k / real (fade_size - 1))"
  proof (intro allI impI)
    fix k assume k: "k < fade_size"
    have i: "window_size - fade_size + k
             = length (linspace 0 1 fade_size @ replicate (window_size - 2 * fade_size) (1::real)) + k"
      using assms by (simp add: length_linspace)
    have "?w ! (window_size - fade_size + k)
          = ((linspace 0 1 fade_size @ replicate (window_size - 2 * fade_size) 1)
             @ linspace 1 0 fade_size) ! (window_size - fade_size + k)"
      by simp
    also have "\<dots> = linspace 1 0 fade_size ! k"
      unfolding i by (rule nth_append_length_plus)
    finally have "?w ! (window_size - fade_size + k) = linspace 1 0 fade_size ! k" .
    then show "?w ! (window_size - fade_size + k) =
                 (if fade_size = 1 then 1 else 1 - real k / real (fade_size - 1))"
      using k by (simp add: nth_linspace)
  qed
  from e l h m t show ?thesis by blast
qed

theorem window_shape_witness:
  "(0::nat) < 3 \<and> 2 * 3 \<le> (10::nat) \<and>
   getWindowingArray 10 3 = Inr [0, 1/2, 1, 1, 1, 1, 1, 1, 1/2, 0]"
proof -
  have e: "getWindowingArray 10 3 = Inr [0, 1/2, 1, 1, 1, 1, 1, 1, 1/2, 0]"
    by (simp add: getWindowingArray_def linspace_def assign_slice_def tail_start_def
        bind_err_def upt_rec numeral_eq_Suc)
  from window_shape [of 3 10] e show ?thesis by simp
qed

subsection \<open>The chunk loop\<close>

lemma nsamples_part:
  "mix \<noteq> [] \<Longrightarrow> nsamples (map (\<lambda>c. take C (drop i c)) mix) = min C (nsamples mix - i)"
  by (cases mix) (simp_all add: nsamples_def min.commute)

lemma demix_step_hold:
  assumes "demix_step p model mix st = Inr st'" and "\<not> step_flushes p mix st"
  shows "idx st' = idx st + p_step p \<and> batch_locations st' = step_locs p mix st \<and>
         trace st' = trace st \<and> result st' = result st \<and> counter st' = counter st \<and>
         length (batch_data st') = Suc (length (batch_data st))"
proof -
  let ?part = "map (\<lambda>c. take (p_chunk_size p) (drop (idx st) c)) mix"
  have "\<exists>part. st' = st\<lparr>idx := idx st + p_step p, batch_data := batch_data st @ [part],
              batch_locations := step_locs p mix st\<rparr>"
    using assms unfolding demix_step_def Let_def bind_err_def step_flushes_def step_locs_def
    by (cases "if p_mode p = Generic \<and> p_chunk_size p div 2 < nsamples ?part
            then pad_reflect 0 (p_chunk_size p - nsamples ?part) ?part
            else Inr (pad_constant 0 (p_chunk_size p - nsamples ?part) ?part)")
      (auto simp add: not_le)
  then show ?thesis by auto
qed

lemma demix_step_flush:
  assumes "demix_step p model mix st = Inr st'" and "step_flushes p mix st"
  shows "\<exists>x. has_shape4 (Suc (length (batch_data st))) (p_num_instruments p) (length mix) (p_chunk_size p) x \<and>
         idx st' = idx st + p_step p \<and> batch_locations st' = [] \<and> batch_data st' = [] \<and>
         trace st' = trace st @ map (\<lambda>l. (l, step_window p mix st)) (step_locs p mix st) \<and>
         (result st', counter st') =
           fold (accumulate (step_window p mix st)) (zip (step_locs p mix st) x) (result st, counter st)"
proof -
  let ?part = "map (\<lambda>c. take (p_chunk_size p) (drop (idx st) c)) mix"
  let ?pad = "if p_mode p = Generic \<and> p_chunk_size p div 2 < nsamples ?part
            then pad_reflect 0 (p_chunk_size p - nsamples ?part) ?part
            else Inr (pad_constant 0 (p_chunk_size p - nsamples ?part) ?part)"
  show ?thesis
  proof (cases ?pad)
    case (Inl e)
    with assms(1) show ?thesis
      unfolding demix_step_def Let_def bind_err_def by simp
  next
    case (Inr part)
    let ?x = "model (batch_data st @ [part])"
    have sh: "has_shape4 (Suc (length (batch_data st))) (p_num_instruments p) (length mix) (p_chunk_size p) ?x"
      using assms Inr
      unfolding demix_step_def Let_def bind_err_def step_flushes_def
      by (simp split: if_splits)
    have "st' = st\<lparr>idx := idx st + p_step p, batch_data := [], batch_locations := [],
              result := fst (fold (accumulate (step_window p mix st)) (zip (step_locs p mix st) ?x) (result st, counter st)),
              counter := snd (fold (accumulate (step_window p mix st)) (zip (step_locs p mix st) ?x) (result st, counter st)),
              trace := trace st @ map (\<lambda>l. (l, step_window p mix st)) (step_locs p mix st)\<rparr>"
      using assms Inr sh
      unfolding demix_step_def Let_def bind_err_def step_flushes_def step_locs_def step_window_def
      by simp
    then have "idx st' = idx st + p_step p \<and> batch_locations st' = [] \<and> batch_data st' = [] \<and>
         trace st' = trace st @ map (\<lambda>l. (l, step_window p mix st)) (step_locs p mix st) \<and>
         (result st', counter st') =
           fold (accumulate (step_window p mix st)) (zip (step_locs p mix st) ?x) (result st, counter st)"
      by simp
    with sh show ?thesis by blast
  qed
qed

lemma demix_step_idx:
  "demix_step p model mix st = Inr st' \<Longrightarrow> idx st' = idx st + p_step p"
  using demix_step_hold [of p model mix st st'] demix_step_flush [of p model mix st st']
  by (cases "step_flushes p mix st") auto

lemma fuel_loop:
  "demix_loop_fuel n p model mix st = Some r \<Longrightarrow> demix_loop p model mix st = Some r"
proof (induction n arbitrary: st)
  case 0
  then show ?case by (subst demix_loop.simps) (simp split: if_splits)
next
  case (Suc n)
  then show ?case by (subst demix_loop.simps) (auto split: if_splits sum.splits)
qed


lemma ceil_mult: "1 \<le> (s::nat) \<Longrightarrow> L \<le> ((L + s - 1) div s) * s"
proof -
  assume s: "1 \<le> s"
  have "(L + s - 1) div s * s + (L + s - 1) mod s = L + s - 1" by simp
  moreover have "(L + s - 1) mod s < s" using s by simp
  ultimately show ?thesis by linarith
qed

lemmas demix_loop_induct = demix_loop.raw_induct [rotated 1, consumes 1, case_names step]


lemma loop_inv:
  assumes "demix_loop p model mix st0 = Some (Inr st)"
    and "I st0"
    and "\<And>s s'. I s \<Longrightarrow> idx s < nsamples mix \<Longrightarrow> demix_step p model mix s = Inr s' \<Longrightarrow> I s'"
  shows "I st \<and> \<not> idx st < nsamples mix"
proof -
  have "demix_loop p model mix st0 = Some r \<Longrightarrow>
        (\<forall>s s'. I s \<longrightarrow> idx s < nsamples mix \<longrightarrow> demix_step p model mix s = Inr s' \<longrightarrow> I s')
        \<longrightarrow> I st0 \<longrightarrow> (\<forall>st. r = Inr st \<longrightarrow> I st \<and> \<not> idx st < nsamples mix)" for r
  proof (induct rule: demix_loop_induct)
    case (step f p model mix st r)
    show ?case
    proof (intro impI)
      assume pres: "\<forall>s s'. I s \<longrightarrow> idx s < nsamples mix \<longrightarrow> demix_step p model mix s = Inr s' \<longrightarrow> I s'"
        and i0: "I st"
      show "\<forall>st. r = Inr st \<longrightarrow> I st \<and> \<not> idx st < nsamples mix"
      proof (cases "idx st < nsamples mix")
        case False
        with step(2) i0 show ?thesis by auto
      next
        case True
        show ?thesis
        proof (cases "demix_step p model mix st")
          case (Inl e)
          with step(2) True show ?thesis by auto
        next
          case (Inr st')
          have fr: "f p model mix st' = Some r" using step(2) True Inr by simp
          have i': "I st'" using pres i0 True Inr by blast
          from step(1) [OF fr] pres i' show ?thesis by blast
        qed
      qed
    qed
  qed
  note main = this [OF assms(1)]
  have pres: "\<forall>s s'. I s \<longrightarrow> idx s < nsamples mix \<longrightarrow> demix_step p model mix s = Inr s' \<longrightarrow> I s'"
    by (intro allI impI) (rule assms(3))
  from main pres assms(2) show ?thesis by blast
qed

lemma sched_inv_init: "sched_inv p L (init_state p mix)"
  by (simp add: sched_inv_def init_state_def)

lemma sched_inv_step:
  assumes ne: "mix \<noteq> []"
    and inv: "sched_inv p (nsamples mix) st"
    and lt: "idx st < nsamples mix"
    and stp: "demix_step p model mix st = Inr st'"
  shows "sched_inv p (nsamples mix) st'"
proof -
  from inv obtain k where k: "idx st = k * p_step p"
    and tr: "map fst (trace st) @ batch_locations st = map (placement p (nsamples mix)) [0..<k]"
    unfolding sched_inv_def by blast
  have loc: "step_locs p mix st = batch_locations st @ [placement p (nsamples mix) k]"
    by (simp add: step_locs_def placement_def k nsamples_part [OF ne])
  have i': "idx st' = Suc k * p_step p"
    using demix_step_idx [OF stp] k by simp
  have m: "map fst (trace st') @ batch_locations st' = map (placement p (nsamples mix)) [0..<Suc k]
           \<and> (nsamples mix \<le> idx st' \<longrightarrow> batch_locations st' = [])"
  proof (cases "step_flushes p mix st")
    case True
    from demix_step_flush [OF stp True] tr loc show ?thesis by (auto simp add: comp_def)
  next
    case False
    from demix_step_hold [OF stp False] False tr loc show ?thesis
      by (auto simp add: step_flushes_def)
  qed
  have "(Suc k - 1) * p_step p < nsamples mix" using lt k by simp
  with i' m show ?thesis unfolding sched_inv_def by blast
qed

lemma schedule_closed_form:
  assumes run: "demix_loop p model mix (init_state p mix) = Some (Inr st)"
    and ne: "mix \<noteq> []"
  shows "\<exists>k. map fst (trace st) = map (placement p (nsamples mix)) [0..<k] \<and>
             nsamples mix \<le> k * p_step p \<and> (k = 0 \<or> (k - 1) * p_step p < nsamples mix)"
proof -
  have "sched_inv p (nsamples mix) st \<and> \<not> idx st < nsamples mix"
    using run sched_inv_init
  proof (rule loop_inv)
    fix s s'
    assume "sched_inv p (nsamples mix) s" "idx s < nsamples mix" "demix_step p model mix s = Inr s'"
    then show "sched_inv p (nsamples mix) s'" by (rule sched_inv_step [OF ne])
  qed
  then show ?thesis unfolding sched_inv_def by auto
qed

lemma placements_cover:
  assumes s: "1 \<le> (s::nat)" and sC: "s \<le> C" and kL: "L \<le> k * s"
    and km: "k = 0 \<or> (k - 1) * s < L"
  shows "(\<Union>j\<in>{0..<k}. {j * s ..< j * s + min C (L - j * s)}) = {0..<L}"
proof (intro set_eqI iffI)
  fix t assume "t \<in> (\<Union>j\<in>{0..<k}. {j * s ..< j * s + min C (L - j * s)})"
  then obtain j where j: "j < k" and t: "j * s \<le> t" "t < j * s + min C (L - j * s)" by auto
  from j have "j \<le> k - 1" by linarith
  then have le: "j * s \<le> (k - 1) * s" by (rule mult_le_mono1)
  from km j have "(k - 1) * s < L" by auto
  with le have "j * s < L" by (rule le_less_trans)
  with t show "t \<in> {0..<L}" by auto
next
  fix t assume "t \<in> {0..<L}"
  then have tL: "t < L" by simp
  let ?j = "t div s"
  have s0: "0 < s" using s by simp
  have lo: "?j * s \<le> t" by simp
  have hi: "t < ?j * s + s"
    using s0 by (metis add.commute dividend_less_div_times mult.commute)
  have "?j * s < k * s" using lo tL kL by linarith
  then have jk: "?j < k" by simp
  have up: "t < ?j * s + min C (L - ?j * s)" using hi sC tL lo by (simp add: min_def) linarith
  have "t \<in> {?j * s ..< ?j * s + min C (L - ?j * s)}" using lo up by simp
  moreover have "?j \<in> {0..<k}" using jk by simp
  ultimately show "t \<in> (\<Union>j\<in>{0..<k}. {j * s ..< j * s + min C (L - j * s)})"
    by (rule UN_I [rotated])
qed

text \<open>
  C3. When the loop returns on a buffer of \<open>L > 0\<close> samples with chunk size \<open>C > 0\<close> and
  \<open>step = C div num_overlap \<ge> 1\<close>, the placements it accumulated are, in order,
  \<open>(j * step, min C (L - j * step))\<close> for \<open>j = 0, 1, \<dots>\<close>; the union of their valid
  ranges \<open>[start, start + valid)\<close> is exactly \<open>[0, L)\<close>, every valid length is at most \<open>C\<close>,
  and the last one is what remains of the buffer, \<open>L - start\<close>.
\<close>

theorem chunk_coverage:
  assumes run: "demix_loop p model mix (init_state p mix) = Some (Inr st)"
    and ne: "mix \<noteq> []"
    and L: "0 < nsamples mix"
    and C: "0 < p_chunk_size p"
    and stp: "p_step p = p_chunk_size p div num_overlap"
    and s1: "1 \<le> p_step p"
  shows "map fst (trace st) \<noteq> [] \<and>
         map fst (trace st) =
           map (\<lambda>j. (j * p_step p, min (p_chunk_size p) (nsamples mix - j * p_step p)))
             [0..<length (trace st)] \<and>
         (\<Union>(start, valid)\<in>set (map fst (trace st)). {start..<start + valid}) = {0..<nsamples mix} \<and>
         (\<forall>(start, valid)\<in>set (map fst (trace st)). valid \<le> p_chunk_size p) \<and>
         snd (last (map fst (trace st))) = nsamples mix - fst (last (map fst (trace st)))"
proof -
  let ?L = "nsamples mix" and ?s = "p_step p" and ?C = "p_chunk_size p"
  from schedule_closed_form [OF run ne] obtain k where
    pl: "map fst (trace st) = map (placement p ?L) [0..<k]"
    and kL: "?L \<le> k * ?s" and km: "k = 0 \<or> (k - 1) * ?s < ?L" by blast
  have len: "length (trace st) = k"
    using arg_cong [OF pl, of length] by simp
  have k0: "0 < k" using kL L by (cases k) auto
  have sC: "?s \<le> ?C" unfolding stp by (rule div_le_dividend)
  have a: "map fst (trace st) \<noteq> []" using pl k0 by simp
  have b: "map fst (trace st) =
           map (\<lambda>j. (j * ?s, min ?C (?L - j * ?s))) [0..<length (trace st)]"
    unfolding len using pl by (simp add: placement_def [abs_def])
  have "(\<Union>(start, valid)\<in>set (map fst (trace st)). {start..<start + valid})
        = (\<Union>j\<in>{0..<k}. {j * ?s ..< j * ?s + min ?C (?L - j * ?s)})"
    unfolding pl by (simp add: placement_def)
  also have "\<dots> = {0..<?L}" using s1 sC kL km by (rule placements_cover)
  finally have c: "(\<Union>(start, valid)\<in>set (map fst (trace st)). {start..<start + valid}) = {0..<?L}" .
  have d: "\<forall>(start, valid)\<in>set (map fst (trace st)). valid \<le> ?C"
    unfolding pl by (auto simp add: placement_def)
  have lst: "last (map fst (trace st)) = placement p ?L (k - 1)"
    unfolding pl using k0 by (simp add: last_map last_upt)
  have "?L - (k - 1) * ?s \<le> ?s"
  proof -
    have "k * ?s = (k - 1) * ?s + ?s" using k0 by (cases k) simp_all
    with kL show ?thesis by linarith
  qed
  with sC have e: "snd (last (map fst (trace st))) = ?L - fst (last (map fst (trace st)))"
    unfolding lst by (simp add: placement_def)
  from a b c d e show ?thesis by blast
qed


lemma example_trace:
  "map_option (map_sum id (\<lambda>st. map fst (trace st)))
     (demix_loop example_plan identity_model example_mix (init_state example_plan example_mix))
   = Some (Inr [(0, 11), (5, 7), (10, 2)])"
  by code_simp


theorem chunk_coverage_witness:
  "\<exists>st. demix_loop example_plan identity_model example_mix
          (init_state example_plan example_mix) = Some (Inr st) \<and>
        example_mix \<noteq> [] \<and> 0 < nsamples example_mix \<and> 0 < p_chunk_size example_plan \<and>
        p_step example_plan = p_chunk_size example_plan div 2 \<and> 1 \<le> p_step example_plan \<and>
        map fst (trace st) = [(0, 11), (5, 7), (10, 2)] \<and>
        (\<Union>(start, valid)\<in>set (map fst (trace st)). {start..<start + valid})
          = {0..<nsamples example_mix} \<and>
        snd (last (map fst (trace st))) = nsamples example_mix - fst (last (map fst (trace st)))"
proof -
  from example_trace obtain st where
    run: "demix_loop example_plan identity_model example_mix
            (init_state example_plan example_mix) = Some (Inr st)"
    and tr: "map fst (trace st) = [(0, 11), (5, 7), (10, 2)]"
    by (cases "demix_loop example_plan identity_model example_mix
            (init_state example_plan example_mix)") (auto simp add: map_sum_def split: sum.splits)
  have ne: "example_mix \<noteq> []" by (simp add: example_mix_def)
  have L: "nsamples example_mix = 12" by (simp add: example_mix_def nsamples_def)
  have L0: "0 < nsamples example_mix" unfolding L by simp
  have C: "0 < p_chunk_size example_plan" by (simp add: example_plan_def)
  have s: "p_step example_plan = p_chunk_size example_plan div 2" by (simp add: example_plan_def)
  have s1: "1 \<le> p_step example_plan" by (simp add: example_plan_def)
  note r = chunk_coverage [OF run ne L0 C s s1]
  from r have c: "(\<Union>(start, valid)\<in>set (map fst (trace st)). {start..<start + valid})
          = {0..<nsamples example_mix}" by (elim conjE)
  from r have e: "snd (last (map fst (trace st)))
          = nsamples example_mix - fst (last (map fst (trace st)))" by (elim conjE)
  from run ne L0 C s s1 tr c e show ?thesis
    by (intro exI [of _ st] conjI)
qed

subsection \<open>The accumulators\<close>

lemma length_add_slice: "length (add_slice s v r) = length r"
  by (simp add: add_slice_def min_def)

lemma nth_add_slice:
  assumes "t < length r"
  shows "add_slice s v r ! t = r ! t + (if s \<le> t \<and> t < s + length v then v ! (t - s) else 0)"
proof -
  consider (a) "t < s" | (b) "s \<le> t" "t < s + length v" | (c) "s + length v \<le> t" by linarith
  then show ?thesis
  proof cases
    case a
    then show ?thesis using assms by (simp add: add_slice_def nth_append)
  next
    case b
    have l1: "length (take s r) = s" using b assms by simp
    have l2: "t - s < length (map2 (+) (take (length v) (drop s r)) v)" using b assms by auto
    have "add_slice s v r ! t = (map2 (+) (take (length v) (drop s r)) v @ drop (s + length v) r) ! (t - s)"
      unfolding add_slice_def using b l1 by (simp add: nth_append)
    also have "\<dots> = map2 (+) (take (length v) (drop s r)) v ! (t - s)"
      using l2 by (simp add: nth_append)
    also have "\<dots> = r ! t + v ! (t - s)" using b assms l2 by simp
    finally show ?thesis using b by simp
  next
    case c
    have l1: "length (take s r) = s" using c assms by simp
    have l2: "length (map2 (+) (take (length v) (drop s r)) v) = length v" using c assms by simp
    have "add_slice s v r ! t = (map2 (+) (take (length v) (drop s r)) v @ drop (s + length v) r) ! (t - s)"
      unfolding add_slice_def using c l1 by (simp add: nth_append)
    also have "\<dots> = drop (s + length v) r ! (t - s - length v)"
      using c l2 by (simp add: nth_append)
    also have "\<dots> = r ! t" using c assms by simp
    finally show ?thesis using c by simp
  qed
qed

lemma add_slice_ok:
  assumes ok: "list_all2 cell_ok r c"
    and len: "length v \<le> length u"
    and nn: "\<forall>i<length u. 0 \<le> u ! i"
    and z: "\<forall>i<length v. u ! i = 0 \<longrightarrow> v ! i = 0"
  shows "list_all2 cell_ok (add_slice s v r) (add_slice s u c)"
proof (rule list_all2_all_nthI)
  show "length (add_slice s v r) = length (add_slice s u c)"
    using ok by (simp add: length_add_slice list_all2_lengthD)
next
  fix t assume "t < length (add_slice s v r)"
  then have tr: "t < length r" by (simp add: length_add_slice)
  then have tc: "t < length c" using ok by (simp add: list_all2_lengthD)
  have o: "cell_ok (r ! t) (c ! t)" using ok tr by (rule list_all2_nthD)
  show "cell_ok (add_slice s v r ! t) (add_slice s u c ! t)"
  proof (cases "s \<le> t \<and> t < s + length u")
    case False
    then have "\<not> (s \<le> t \<and> t < s + length v)" using len by auto
    with False o show ?thesis by (auto simp add: nth_add_slice tr tc)
  next
    case True
    then have iu: "t - s < length u" by auto
    from nn iu have u0: "0 \<le> u ! (t - s)" by blast
    show ?thesis
    proof (cases "t < s + length v")
      case False
      with True o u0 show ?thesis
        by (auto simp add: nth_add_slice tr tc cell_ok_def)
    next
      case lt: True
      then have "t - s < length v" using True by auto
      with z have "u ! (t - s) = 0 \<longrightarrow> v ! (t - s) = 0" by blast
      with True lt o u0 show ?thesis
        by (auto simp add: nth_add_slice tr tc cell_ok_def add_nonneg_eq_0_iff)
    qed
  qed
qed

lemma list_all2_map2_map:
  assumes "list_all2 Q xs zs" and "length xs \<le> length ys"
    and "\<And>i. i < length xs \<Longrightarrow> Q (xs ! i) (zs ! i) \<Longrightarrow> P (f (xs ! i) (ys ! i)) (g (zs ! i))"
  shows "list_all2 P (map2 f xs ys) (map g zs)"
proof (rule list_all2_all_nthI)
  show "length (map2 f xs ys) = length (map g zs)"
    using assms(1,2) by (simp add: list_all2_lengthD [symmetric])
next
  fix i assume "i < length (map2 f xs ys)"
  then have i: "i < length xs" "i < length ys" by simp_all
  then have iz: "i < length zs" using assms(1) by (simp add: list_all2_lengthD)
  have "Q (xs ! i) (zs ! i)" using assms(1) i(1) by (rule list_all2_nthD)
  from assms(3) [OF i(1) this] show "P (map2 f xs ys ! i) (map g zs ! i)"
    using i iz by simp
qed

lemma accumulate_ok:
  assumes acc: "acc_ok ni nch acc"
    and sh: "has_shape3 ni nch C xj"
    and nn: "\<forall>w. window = Some w \<longrightarrow> (\<forall>x\<in>set w. 0 \<le> x)"
  shows "acc_ok ni nch (accumulate window ((s, l), xj) acc)"
proof -
  obtain res cnt where a: "acc = (res, cnt)" by (cases acc)
  from acc a have lr: "length res = ni" and rows: "\<forall>row\<in>set res. length row = nch"
    and ok: "list_all2 (list_all2 (list_all2 cell_ok)) res cnt"
    by (simp_all add: acc_ok_def)
  from sh have lx: "length xj = ni" and xrows: "\<forall>u\<in>set xj. length u = nch"
    by (auto simp add: has_shape3_def list_all_iff)
  define F where "F = (\<lambda>(r::real list) (xs::real list).
     case window of Some w \<Rightarrow> add_slice s (map2 (*) (take l xs) (take l w)) r
                  | None \<Rightarrow> add_slice s (take l xs) r)"
  define G where "G = (\<lambda>(c::real list).
     case window of Some w \<Rightarrow> add_slice s (take l w) c
                  | None \<Rightarrow> add_slice s (replicate l 1) c)"
  have eq: "accumulate window ((s, l), xj) acc = (map2 (map2 F) res xj, map (map G) cnt)"
    unfolding a F_def G_def
    by (cases window) (simp_all add: accumulate_def accumulate_generic_def accumulate_demucs_def)
  have cell: "list_all2 cell_ok (F r xs) (G c)" if "list_all2 cell_ok r c" for r xs c
  proof (cases window)
    case None
    have "list_all2 cell_ok (add_slice s (take l xs) r) (add_slice s (replicate l 1) c)"
      using that by (rule add_slice_ok) simp_all
    then show ?thesis by (simp add: F_def G_def None)
  next
    case (Some w)
    have w0: "\<forall>x\<in>set w. 0 \<le> x" using nn Some by blast
    have "list_all2 cell_ok (add_slice s (map2 (*) (take l xs) (take l w)) r)
            (add_slice s (take l w) c)"
      using that
    proof (rule add_slice_ok)
      show "length (map2 (*) (take l xs) (take l w)) \<le> length (take l w)"
        by (auto simp add: min_def)
      show "\<forall>i<length (take l w). 0 \<le> take l w ! i"
        using w0 by (auto simp add: set_conv_nth)
      show "\<forall>i<length (map2 (*) (take l xs) (take l w)). take l w ! i = 0 \<longrightarrow>
              map2 (*) (take l xs) (take l w) ! i = 0"
        by simp
    qed
    then show ?thesis by (simp add: F_def G_def Some)
  qed
  have chan: "list_all2 (list_all2 cell_ok) (map2 F rr xx) (map G cc)"
    if "list_all2 (list_all2 cell_ok) rr cc" and "length rr \<le> length xx" for rr xx cc
    using that by (rule list_all2_map2_map) (rule cell)
  have inst: "list_all2 (list_all2 (list_all2 cell_ok)) (map2 (map2 F) res xj) (map (map G) cnt)"
    using ok
  proof (rule list_all2_map2_map)
    show "length res \<le> length xj" using lr lx by simp
    fix i assume i: "i < length res" and q: "list_all2 (list_all2 cell_ok) (res ! i) (cnt ! i)"
    have "length (res ! i) = nch" using rows i by simp
    moreover have "length (xj ! i) = nch" using xrows i lr lx by simp
    ultimately have "length (res ! i) \<le> length (xj ! i)" by simp
    with q show "list_all2 (list_all2 cell_ok) (map2 F (res ! i) (xj ! i)) (map G (cnt ! i))"
      by (rule chan)
  qed
  have len: "length (map2 (map2 F) res xj) = ni" using lr lx by simp
  have rws: "\<forall>row\<in>set (map2 (map2 F) res xj). length row = nch"
  proof
    fix row assume "row \<in> set (map2 (map2 F) res xj)"
    then obtain a b where ab: "(a, b) \<in> set (zip res xj)" and row: "row = map2 F a b" by auto
    from ab have "a \<in> set res" "b \<in> set xj" by (auto dest: set_zip_leftD set_zip_rightD)
    with rows xrows row show "length row = nch" by simp
  qed
  from len rws inst show ?thesis unfolding eq acc_ok_def by simp
qed

lemma fold_accumulate_ok:
  assumes "acc_ok ni nch acc"
    and "\<forall>xj\<in>set x. has_shape3 ni nch C xj"
    and "\<forall>w. window = Some w \<longrightarrow> (\<forall>x\<in>set w. 0 \<le> x)"
  shows "acc_ok ni nch (fold (accumulate window) (zip bl x) acc)"
  using assms(1,2)
proof (induction bl arbitrary: x acc)
  case Nil
  then show ?case by simp
next
  case (Cons b bl)
  show ?case
  proof (cases x)
    case Nil
    with Cons show ?thesis by simp
  next
    case (Cons xj xs)
    obtain s l where b: "b = (s, l)" by (cases b)
    have "acc_ok ni nch (accumulate window ((s, l), xj) acc)"
      using Cons.prems(1) _ assms(3)
    proof (rule accumulate_ok)
      show "has_shape3 ni nch C xj" using Cons.prems(2) Cons by simp
    qed
    moreover have "\<forall>xj\<in>set xs. has_shape3 ni nch C xj" using Cons.prems(2) Cons by simp
    ultimately show ?thesis using Cons.IH [of "accumulate window ((s, l), xj) acc" xs]
      by (simp add: Cons b)
  qed
qed

lemma set_assign_slice:
  "assign_slice lo hi v w = Inr w' \<Longrightarrow> set w' \<subseteq> set w \<union> set v"
proof -
  assume a: "assign_slice lo hi v w = Inr w'"
  have t: "set (take lo w) \<subseteq> set w" and d: "set (drop hi w) \<subseteq> set w"
    by (rule set_take_subset, rule set_drop_subset)
  show ?thesis
  proof (cases "length v = hi - lo")
    case True
    with a have "w' = take lo w @ v @ drop hi w" by (simp add: assign_slice_def)
    with t d show ?thesis by auto
  next
    case False
    with a have l: "length v = 1" and w': "w' = take lo w @ replicate (hi - lo) (hd v) @ drop hi w"
      by (auto simp add: assign_slice_def split: if_splits)
    from l have "hd v \<in> set v" by (cases v) simp_all
    with w' t d show ?thesis by auto
  qed
qed

lemma linspace_up_nonneg: "\<forall>x\<in>set (linspace 0 1 n). 0 \<le> x"
  by (auto simp add: linspace_def)

lemma linspace_down_nonneg: "\<forall>x\<in>set (linspace 1 0 n). 0 \<le> x"
proof
  fix x assume "x \<in> set (linspace 1 0 n)"
  then consider "x = 1" | k where "k < n" "n \<noteq> 1" "x = 1 + real k * (0 - 1) / real (n - 1)"
    by (auto simp add: linspace_def split: if_splits)
  then show "0 \<le> x"
  proof cases
    case 1
    then show ?thesis by simp
  next
    case 2
    then have "real k \<le> real (n - 1)" by simp
    moreover have "0 < real (n - 1)" using 2 by simp
    ultimately have "real k / real (n - 1) \<le> 1" by (simp add: divide_le_eq_1)
    with 2 show ?thesis by simp
  qed
qed

lemma window_nonneg:
  assumes "getWindowingArray C f = Inr w"
  shows "\<forall>x\<in>set w. 0 \<le> x"
proof -
  from assms obtain w1 where
    a: "assign_slice (tail_start C f) C (linspace 1 0 f) (replicate C 1) = Inr w1"
    and b: "assign_slice 0 (min f C) (linspace 0 1 f) w1 = Inr w"
    by (auto simp add: getWindowingArray_def bind_err_def Let_def split: sum.splits)
  from set_assign_slice [OF a] linspace_down_nonneg have "\<forall>x\<in>set w1. 0 \<le> x" by fastforce
  with set_assign_slice [OF b] linspace_up_nonneg show ?thesis by fastforce
qed

lemma plan_facts:
  assumes "demix_plan cfg m = Inr p"
  shows "p_mode p = m"
    and "p_num_instruments p =
           length (if m = Demucs then training_instruments cfg else prefer_target_instrument cfg)"
    and "\<forall>x\<in>set (p_windowing_array p). 0 \<le> x"
proof -
  show "p_mode p = m"
    using assms by (cases m) (auto simp add: demix_plan_def bind_err_def Let_def split: sum.splits)
  show "p_num_instruments p =
           length (if m = Demucs then training_instruments cfg else prefer_target_instrument cfg)"
    using assms by (cases m) (auto simp add: demix_plan_def bind_err_def Let_def split: sum.splits)
  show "\<forall>x\<in>set (p_windowing_array p). 0 \<le> x"
  proof (cases m)
    case Demucs
    with assms show ?thesis
      by (auto simp add: demix_plan_def bind_err_def Let_def split: sum.splits)
  next
    case Generic
    with assms obtain w where "getWindowingArray (audio_chunk_size cfg) (audio_chunk_size cfg div 10) = Inr w"
      and "p_windowing_array p = w"
      by (auto simp add: demix_plan_def bind_err_def Let_def split: sum.splits)
    with window_nonneg show ?thesis by blast
  qed
qed

lemma batch_window_nonneg:
  assumes "\<forall>x\<in>set (p_windowing_array p). 0 \<le> x"
  shows "\<forall>x\<in>set (batch_window p i L). 0 \<le> x"
proof -
  have f: "\<forall>x\<in>set (fill_slice lo hi 1 w). 0 \<le> x" if "\<forall>x\<in>set w. 0 \<le> x"
    for lo hi and w :: "real list"
    using that by (auto simp add: fill_slice_def dest: in_set_takeD in_set_dropD)
  show ?thesis
    unfolding batch_window_def Let_def
    using f [OF assms] assms by (simp split: if_splits)
qed

lemma acc_ok_init: "acc_ok ni nch (zeros3 ni nch L, zeros3 ni nch L)"
  by (simp add: acc_ok_def zeros3_def cell_ok_def list_all2_conv_all_nth)

lemma acc_ok_step:
  assumes nn: "\<forall>x\<in>set (p_windowing_array p). 0 \<le> x"
    and inv: "acc_ok (p_num_instruments p) (length mix) (result st, counter st)"
    and stp: "demix_step p model mix st = Inr st'"
  shows "acc_ok (p_num_instruments p) (length mix) (result st', counter st')"
proof (cases "step_flushes p mix st")
  case False
  from demix_step_hold [OF stp False] inv show ?thesis by simp
next
  case True
  from demix_step_flush [OF stp True] obtain x where
    sh: "has_shape4 (Suc (length (batch_data st))) (p_num_instruments p) (length mix) (p_chunk_size p) x"
    and eq: "(result st', counter st') =
           fold (accumulate (step_window p mix st)) (zip (step_locs p mix st) x) (result st, counter st)"
    by blast
  have w: "\<forall>w. step_window p mix st = Some w \<longrightarrow> (\<forall>x\<in>set w. 0 \<le> x)"
    using batch_window_nonneg [OF nn] by (simp add: step_window_def)
  have xs: "\<forall>xj\<in>set x. has_shape3 (p_num_instruments p) (length mix) (p_chunk_size p) xj"
    using sh by (simp add: has_shape4_def list_all_iff)
  from fold_accumulate_ok [OF inv xs w] show ?thesis unfolding eq .
qed

lemma demix_run_Inr:
  assumes "demix_run cfg model mix m = Some (Inr (p, mix', st))"
  shows "demix_plan cfg m = Inr p" and "demix_pad p mix = Inr mix'"
    and "demix_loop p model mix' (init_state p mix') = Some (Inr st)"
  using assms
  by (auto simp add: demix_run_def split: sum.splits option.splits)

lemma run_acc_ok:
  assumes "demix_run cfg model mix m = Some (Inr (p, mix', st))"
  shows "acc_ok (p_num_instruments p) (length mix') (result st, counter st)"
proof -
  note f = demix_run_Inr [OF assms]
  have nn: "\<forall>x\<in>set (p_windowing_array p). 0 \<le> x" using plan_facts(3) [OF f(1)] .
  let ?I = "\<lambda>s. acc_ok (p_num_instruments p) (length mix') (result s, counter s)"
  have "?I st \<and> \<not> idx st < nsamples mix'"
    using f(3)
  proof (rule loop_inv)
    show "?I (init_state p mix')" by (simp add: init_state_def acc_ok_init)
  next
    fix s s' assume "?I s" "idx s < nsamples mix'" "demix_step p model mix' s = Inr s'"
    then show "?I s'" using acc_ok_step [OF nn] by blast
  qed
  then show ?thesis by simp
qed



subsection \<open>The returned value and evaluated runs\<close>

lemma update_fresh: "k \<notin> fst ` set al \<Longrightarrow> AList.update k v al = al @ [(k, v)]"
  by (induction al) auto

lemma fold_update_distinct:
  "distinct (map fst (acc @ ps)) \<Longrightarrow>
   fold (\<lambda>kv d. AList.update (fst kv) (snd kv) d) ps acc = acc @ ps"
proof (induction ps arbitrary: acc)
  case Nil
  then show ?case by simp
next
  case (Cons kv ps)
  have fr: "fst kv \<notin> fst ` set acc" using Cons.prems by auto
  have "distinct (map fst ((acc @ [kv]) @ ps))" using Cons.prems by simp
  from Cons.IH [OF this] show ?case
    by (simp add: update_fresh [OF fr])
qed

lemma dict_of_distinct: "distinct (map fst ps) \<Longrightarrow> dict_of ps = ps"
  using fold_update_distinct [of "[]" ps] by (simp add: dict_of_def)

lemma distinct_fold_update:
  "distinct (map fst acc) \<Longrightarrow>
   distinct (map fst (fold (\<lambda>kv d. AList.update (fst kv) (snd kv) d) ps acc))"
  by (induction ps arbitrary: acc) (simp_all add: distinct_update)

lemma distinct_dict_of: "distinct (map fst (dict_of ps))"
  using distinct_fold_update [of "[]" ps] by (simp add: dict_of_def)

lemma length_estimated_sources:
  assumes "demix_run cfg model mix m = Some (Inr (p, mix', st))"
  shows "length (estimated_sources p mix st) = length (output_instruments cfg m)"
proof -
  from run_acc_ok [OF assms] have
    l: "length (result st) = p_num_instruments p"
    and ok: "list_all2 (list_all2 (list_all2 cell_ok)) (result st) (counter st)"
    by (simp_all add: acc_ok_def)
  from ok have "length (counter st) = length (result st)" by (simp add: list_all2_lengthD)
  with l have "length (normalize (result st) (counter st)) = p_num_instruments p"
    by (simp add: normalize_def)
  then have "length (estimated_sources p mix st) = p_num_instruments p"
    by (simp add: estimated_sources_def strip_border_def)
  with plan_facts(2) [OF demix_run_Inr(1) [OF assms]] show ?thesis
    by (simp add: output_instruments_def)
qed

text \<open>
  C9. A run of \<open>demix\<close> that reaches its end returns the raw array of estimated sources
  exactly when the mode is demucs and at most one instrument is configured (so with
  exactly one); in generic mode, and in demucs mode with more instruments, it returns the
  dictionary built from \<open>zip(instruments, estimated_sources)\<close>. The array has one row per
  instrument name, the keys of the dictionary are distinct, and when the names are
  distinct the dictionary is the list of pairs (name, row) in the order of the rows.
\<close>

theorem single_instrument_collapse:
  assumes run: "demix_run cfg model mix (demix_mode model_type use_onnx use_tensorrt use_compile)
                  = Some (Inr (p, mix', st))"
  shows "demix cfg model mix model_type use_onnx use_tensorrt use_compile =
           Some (Inr (if demix_mode model_type use_onnx use_tensorrt use_compile = Demucs \<and>
                         length (training_instruments cfg) \<le> 1
                      then Raw (estimated_sources p mix st)
                      else Named (dict_of (zip
                             (output_instruments cfg
                                (demix_mode model_type use_onnx use_tensorrt use_compile))
                             (estimated_sources p mix st))))) \<and>
         length (estimated_sources p mix st) =
           length (output_instruments cfg
                     (demix_mode model_type use_onnx use_tensorrt use_compile)) \<and>
         distinct (map fst (dict_of (zip
            (output_instruments cfg (demix_mode model_type use_onnx use_tensorrt use_compile))
            (estimated_sources p mix st)))) \<and>
         (distinct (output_instruments cfg
                      (demix_mode model_type use_onnx use_tensorrt use_compile)) \<longrightarrow>
            dict_of (zip
              (output_instruments cfg (demix_mode model_type use_onnx use_tensorrt use_compile))
              (estimated_sources p mix st))
            = zip (output_instruments cfg
                     (demix_mode model_type use_onnx use_tensorrt use_compile))
                  (estimated_sources p mix st))"
proof -
  let ?m = "demix_mode model_type use_onnx use_tensorrt use_compile"
  note pf = plan_facts [OF demix_run_Inr(1) [OF run]]
  have len: "length (estimated_sources p mix st) = length (output_instruments cfg ?m)"
    using run by (rule length_estimated_sources)
  have ni: "p_num_instruments p = length (output_instruments cfg ?m)"
    using pf(2) by (simp add: output_instruments_def)
  have a: "demix cfg model mix model_type use_onnx use_tensorrt use_compile =
           Some (Inr (if ?m = Demucs \<and> length (training_instruments cfg) \<le> 1
                      then Raw (estimated_sources p mix st)
                      else Named (dict_of (zip (output_instruments cfg ?m)
                             (estimated_sources p mix st)))))"
    unfolding demix_def run using pf(1) ni
    by (auto simp add: finalize_def Let_def output_instruments_def)
  have d: "distinct (output_instruments cfg ?m) \<longrightarrow>
            dict_of (zip (output_instruments cfg ?m) (estimated_sources p mix st))
            = zip (output_instruments cfg ?m) (estimated_sources p mix st)"
    using len by (auto intro: dict_of_distinct)
  from a len distinct_dict_of d show ?thesis by blast
qed

lemma demucs_run:
  "map_option (map_sum id (\<lambda>(p, mix', st). estimated_sources p round_mix st))
     (demix_run demucs_cfg identity_model round_mix (demix_mode ''htdemucs'' True False False))
   = Some (Inr [round_mix])"
  by code_simp

lemma generic_run:
  "map_option (map_sum id (\<lambda>(p, mix', st). estimated_sources p round_mix st))
     (demix_run edge_cfg identity_model round_mix (demix_mode ''htdemucs'' False False False))
   = Some (Inr [round_mix])"
  by code_simp

theorem single_instrument_collapse_witness:
  "demix demucs_cfg identity_model round_mix ''htdemucs'' True False False
     = Some (Inr (Raw [round_mix])) \<and>
   demix edge_cfg identity_model round_mix ''htdemucs'' False False False
     = Some (Inr (Named [(''vocals'', round_mix)]))"
proof -
  let ?m1 = "demix_mode ''htdemucs'' True False False"
  let ?m2 = "demix_mode ''htdemucs'' False False False"
  from demucs_run obtain p1 x1 s1 where
    r1: "demix_run demucs_cfg identity_model round_mix ?m1 = Some (Inr (p1, x1, s1))"
    and e1: "estimated_sources p1 round_mix s1 = [round_mix]"
    by (cases "demix_run demucs_cfg identity_model round_mix ?m1")
       (auto simp add: map_sum_def split: sum.splits)
  from generic_run obtain p2 x2 s2 where
    r2: "demix_run edge_cfg identity_model round_mix ?m2 = Some (Inr (p2, x2, s2))"
    and e2: "estimated_sources p2 round_mix s2 = [round_mix]"
    by (cases "demix_run edge_cfg identity_model round_mix ?m2")
       (auto simp add: map_sum_def split: sum.splits)
  have m1: "?m1 = Demucs" and m2: "?m2 = Generic" by (simp_all add: demix_mode_def)
  have a: "demix demucs_cfg identity_model round_mix ''htdemucs'' True False False
     = Some (Inr (Raw [round_mix]))"
    using single_instrument_collapse [OF r1] e1 m1 by (simp add: demucs_cfg_def)
  have b: "demix edge_cfg identity_model round_mix ''htdemucs'' False False False
     = Some (Inr (Named [(''vocals'', round_mix)]))"
    using single_instrument_collapse [OF r2] e2 m2
    by (simp add: edge_cfg_def output_instruments_def prefer_target_instrument_def dict_of_def)
  from a b show ?thesis by simp
qed

text \<open>
  C2, evaluated. Chunk size 20 (fade 2), overlap 2, batch size 3, one channel of 25
  samples, padded to 45. The first batch holds the chunks at 0, 10 and 20 and is
  accumulated with the unmodified window, whose fade-in \<open>[0, 1]\<close> the chunk at offset 0
  keeps; the last batch holds the chunks at 30 and 40, and the chunk at 30, which does not
  reach the end of the buffer, is accumulated with the fade-out forced to 1.
\<close>

theorem edge_correction_per_batch:
  "map_option (map_sum id (\<lambda>(p, mix', st). (p_fade_size p, nsamples mix', trace st)))
     (demix_run edge_cfg identity_model round_mix Generic)
   = Some (Inr (2, 45,
       [((0, 20), Some [0, 1, 1, 1, 1, 1, 1, 1, 1, 1, 1, 1, 1, 1, 1, 1, 1, 1, 1, 0]),
        ((10, 20), Some [0, 1, 1, 1, 1, 1, 1, 1, 1, 1, 1, 1, 1, 1, 1, 1, 1, 1, 1, 0]),
        ((20, 20), Some [0, 1, 1, 1, 1, 1, 1, 1, 1, 1, 1, 1, 1, 1, 1, 1, 1, 1, 1, 0]),
        ((30, 15), Some [0, 1, 1, 1, 1, 1, 1, 1, 1, 1, 1, 1, 1, 1, 1, 1, 1, 1, 1, 1]),
        ((40, 5), Some [0, 1, 1, 1, 1, 1, 1, 1, 1, 1, 1, 1, 1, 1, 1, 1, 1, 1, 1, 1])]))"
  by code_simp

text \<open>
  C1, evaluated. Identity backend, one instrument, chunk size 20, overlap 4 (step 5,
  border 15), batch size 2, one channel holding 1, 2, \<dots>, 25: the buffer is longer than a
  chunk and not longer than twice the border, so it is not padded. The output equals the
  input except at sample 0, where it is 0.
\<close>

theorem round_trip_first_sample_lost:
  "audio_chunk_size round_cfg < nsamples round_mix \<and> 2 \<le> inference_num_overlap round_cfg \<and>
   demix round_cfg identity_model round_mix ''mdx23c'' False False False
     = Some (Inr (Named [(''vocals'',
         [[0, 2, 3, 4, 5, 6, 7, 8, 9, 10, 11, 12, 13, 14, 15, 16, 17, 18, 19, 20,
           21, 22, 23, 24, 25]])]))"
  by code_simp



subsection \<open>Test-time augmentation\<close>




lemma assoc_eqI:
  "map fst xs = map fst ys \<Longrightarrow> distinct (map fst xs) \<Longrightarrow> map_of xs = map_of ys \<Longrightarrow> xs = ys"
proof (induction xs arbitrary: ys)
  case Nil
  then show ?case by simp
next
  case (Cons x xs)
  from Cons.prems(1) obtain y ys' where ys: "ys = y # ys'" and k: "fst x = fst y"
    and ks: "map fst xs = map fst ys'" by (cases ys) auto
  have "map_of (x # xs) (fst x) = map_of (y # ys') (fst x)"
    unfolding ys [symmetric] by (simp only: Cons.prems(3))
  with k have v: "snd x = snd y" by simp
  have xy: "x = y" using k v by (simp add: prod_eq_iff)
  have fx: "fst x \<notin> set (map fst xs)" using Cons.prems(2) by simp
  then have fy: "fst x \<notin> set (map fst ys')" unfolding ks .
  have nx: "map_of xs (fst x) = None" using fx by (simp add: map_of_eq_None_iff)
  have ny: "map_of ys' (fst x) = None" using fy by (simp add: map_of_eq_None_iff)
  have "map_of xs = map_of ys'"
  proof
    fix k'
    show "map_of xs k' = map_of ys' k'"
    proof (cases "k' = fst x")
      case True
      with nx ny show ?thesis by simp
    next
      case False
      have "map_of (x # xs) k' = map_of (y # ys') k'"
        unfolding ys [symmetric] by (simp only: Cons.prems(3))
      with False k show ?thesis by (cases x, cases y) auto
    qed
  qed
  from Cons.IH [OF ks _ this] Cons.prems(2) xy show ?case by (simp add: ys)
qed















subsection \<open>Weight reconciliation\<close>

lemma has_shape_Cons:
  "has_shape (n # ns) t = (\<exists>ts. t = Node ts \<and> length ts = n \<and> (\<forall>u\<in>set ts. has_shape ns u))"
  by (cases t) (auto simp add: list_all_iff)

lemma has_shape_Nil: "has_shape [] t = (\<exists>x. t = Leaf x)"
  by (cases t) auto

lemma has_shape_zeros: "has_shape ns (zeros ns)"
  by (induction ns) (simp_all add: list_all_iff)

lemma get_zeros: "list_all2 (<) ix ns \<Longrightarrow> get (zeros ns) ix = Some 0"
proof (induction ns arbitrary: ix)
  case Nil
  then show ?case by simp
next
  case (Cons n ns)
  then obtain i "is" where "ix = i # is" "i < n" "list_all2 (<) is ns"
    by (auto simp add: list_all2_Cons2)
  with Cons.IH show ?case by simp
qed

lemma set_low_shape:
  "has_shape ms m \<Longrightarrow> has_shape os od \<Longrightarrow> list_all2 (\<le>) os ms \<Longrightarrow>
   has_shape ms (set_low os m od)"
proof (induction os arbitrary: ms m od)
  case Nil
  then show ?case by simp
next
  case (Cons o1 os)
  from Cons.prems(3) obtain m1 ms' where ms: "ms = m1 # ms'" and le: "o1 \<le> m1"
    and les: "list_all2 (\<le>) os ms'" by (auto simp add: list_all2_Cons1)
  from Cons.prems(1) obtain ds where m: "m = Node ds" and ld: "length ds = m1"
    and sd: "\<forall>u\<in>set ds. has_shape ms' u" by (auto simp add: ms has_shape_Cons)
  from Cons.prems(2) obtain ss where od: "od = Node ss" and ls: "length ss = o1"
    and ss: "\<forall>u\<in>set ss. has_shape os u" by (auto simp add: has_shape_Cons)
  have len: "length (map2 (set_low os) (take o1 ds) ss @ drop o1 ds) = m1"
    using ld ls le by simp
  have "has_shape ms' u" if "u \<in> set (map2 (set_low os) (take o1 ds) ss @ drop o1 ds)" for u
  proof -
    from that consider (a) d s where "(d, s) \<in> set (zip (take o1 ds) ss)" "u = set_low os d s"
      | (b) "u \<in> set (drop o1 ds)" by auto
    then show ?thesis
    proof cases
      case a
      then have "d \<in> set ds" "s \<in> set ss"
        by (auto dest: set_zip_leftD set_zip_rightD in_set_takeD)
      with sd ss have "has_shape ms' d" "has_shape os s" by auto
      with a les show ?thesis by (simp add: Cons.IH)
    next
      case b
      then have "u \<in> set ds" by (rule in_set_dropD)
      with sd show ?thesis by simp
    qed
  qed
  with len show ?case by (simp add: ms m od has_shape_Cons)
qed

lemma get_set_low:
  "has_shape ms m \<Longrightarrow> has_shape os od \<Longrightarrow> list_all2 (\<le>) os ms \<Longrightarrow> list_all2 (<) ix ms \<Longrightarrow>
   get (set_low os m od) ix = (if list_all2 (<) ix os then get od ix else get m ix)"
proof (induction os arbitrary: ms m od ix)
  case Nil
  then show ?case by (auto simp add: has_shape_Nil)
next
  case (Cons o1 os)
  from Cons.prems(3) obtain m1 ms' where ms: "ms = m1 # ms'" and le: "o1 \<le> m1"
    and les: "list_all2 (\<le>) os ms'" by (auto simp add: list_all2_Cons1)
  from Cons.prems(1) obtain ds where m: "m = Node ds" and ld: "length ds = m1"
    and sd: "\<forall>u\<in>set ds. has_shape ms' u" by (auto simp add: ms has_shape_Cons)
  from Cons.prems(2) obtain ss where od: "od = Node ss" and ls: "length ss = o1"
    and ss: "\<forall>u\<in>set ss. has_shape os u" by (auto simp add: has_shape_Cons)
  from Cons.prems(4) obtain i "is" where ix: "ix = i # is" and i: "i < m1"
    and is': "list_all2 (<) is ms'" by (auto simp add: ms list_all2_Cons2)
  let ?l = "map2 (set_low os) (take o1 ds) ss @ drop o1 ds"
  have len: "length ?l = m1" using ld ls le by simp
  show ?case
  proof (cases "i < o1")
    case True
    have e: "?l ! i = set_low os (ds ! i) (ss ! i)"
      using True ld ls le by (simp add: nth_append)
    have "has_shape ms' (ds ! i)" "has_shape os (ss ! i)"
      using sd ss True i ld ls by simp_all
    from Cons.IH [OF this les is']
    show ?thesis using True i len ld ls e by (simp add: ix m od)
  next
    case False
    have e: "?l ! i = ds ! i"
      using False i ld ls le by (simp add: nth_append)
    show ?thesis using False i len ld e by (simp add: ix m od)
  qed
qed

lemma get_slice_low:
  "has_shape ms m \<Longrightarrow> list_all2 (\<le>) ns ms \<Longrightarrow> list_all2 (<) ix ns \<Longrightarrow>
   get (slice_low ns m) ix = get m ix"
proof (induction ns arbitrary: ms m ix)
  case Nil
  then show ?case by simp
next
  case (Cons n ns)
  from Cons.prems(2) obtain m1 ms' where ms: "ms = m1 # ms'" and le: "n \<le> m1"
    and les: "list_all2 (\<le>) ns ms'" by (auto simp add: list_all2_Cons1)
  from Cons.prems(1) obtain ds where m: "m = Node ds" and ld: "length ds = m1"
    and sd: "\<forall>u\<in>set ds. has_shape ms' u" by (auto simp add: ms has_shape_Cons)
  from Cons.prems(3) obtain i "is" where ix: "ix = i # is" and i: "i < n"
    and is': "list_all2 (<) is ns" by (auto simp add: list_all2_Cons2)
  have "has_shape ms' (ds ! i)" using sd i le ld by simp
  from Cons.IH [OF this les is'] show ?case
    using i le ld by (simp add: ix m)
qed

lemma max_matrix_spec:
  assumes od: "has_shape os od" and le: "list_all2 (\<le>) os ms"
  shows "has_shape ms (((\<lambda>m. set_low os m od) ^^ k) (zeros ms)) \<and>
         (0 < k \<longrightarrow> (\<forall>ix. list_all2 (<) ix ms \<longrightarrow>
            get (((\<lambda>m. set_low os m od) ^^ k) (zeros ms)) ix
              = (if list_all2 (<) ix os then get od ix else Some 0)))"
proof (induction k)
  case 0
  show ?case by (simp add: has_shape_zeros)
next
  case (Suc k)
  let ?m = "((\<lambda>m. set_low os m od) ^^ k) (zeros ms)"
  from Suc have sh: "has_shape ms ?m" by blast
  have s: "has_shape ms (set_low os ?m od)" using sh od le by (rule set_low_shape)
  have g: "get (set_low os ?m od) ix = (if list_all2 (<) ix os then get od ix else Some 0)"
    if w: "list_all2 (<) ix ms" for ix
  proof (cases "list_all2 (<) ix os")
    case True
    then show ?thesis by (simp add: get_set_low [OF sh od le w])
  next
    case False
    have "get ?m ix = Some 0"
    proof (cases k)
      case 0
      then show ?thesis using w by (simp add: get_zeros)
    next
      case (Suc j)
      with Suc.IH w False show ?thesis by simp
    qed
    with False show ?thesis by (simp add: get_set_low [OF sh od le w])
  qed
  from s g show ?case by simp
qed

lemma map2_max_ge:
  "length ns = length os \<Longrightarrow>
   list_all2 (\<le>) os (map2 max ns os) \<and> list_all2 (\<le>) ns (map2 max ns (os::nat list)) \<and>
   map2 min ns (map2 max ns os) = ns"
  by (induction ns os rule: list_induct2) simp_all

lemma within_le: "list_all2 (<) ix ns \<Longrightarrow> list_all2 (\<le>) ns ms \<Longrightarrow> list_all2 (<) ix (ms::nat list)"
proof (induction ix arbitrary: ns ms)
  case Nil
  then show ?case by simp
next
  case (Cons i "is")
  then show ?case by (auto simp add: list_all2_Cons1)
qed

lemma reconcile_spec:
  assumes wf: "has_shape (fst old) (snd old)"
    and rank: "length (fst new) = length (fst old)"
  shows "fst (reconcile new old) = fst new \<and>
         (fst new = fst old \<longrightarrow> reconcile new old = old) \<and>
         (\<forall>ix. list_all2 (<) ix (fst new) \<longrightarrow>
            get (snd (reconcile new old)) ix
              = (if list_all2 (<) ix (fst old) then get (snd old) ix else Some 0))"
proof (cases "fst new = fst old")
  case True
  then show ?thesis by (simp add: reconcile_def)
next
  case False
  let ?ms = "map2 max (fst new) (fst old)"
  let ?mm = "((\<lambda>m. set_low (fst old) m (snd old)) ^^ length (fst new)) (zeros ?ms)"
  note mx = map2_max_ge [OF rank]
  have r: "reconcile new old = (fst new, slice_low (fst new) ?mm)"
    using False rank mx by (simp add: reconcile_def Let_def)
  have pos: "0 < length (fst new)" using False rank by (cases "fst new") auto
  from max_matrix_spec [OF wf, of ?ms "length (fst new)"] mx pos
  have sh: "has_shape ?ms ?mm"
    and g: "\<And>ix. list_all2 (<) ix ?ms \<Longrightarrow>
             get ?mm ix = (if list_all2 (<) ix (fst old) then get (snd old) ix else Some 0)"
    by blast+
  have "get (slice_low (fst new) ?mm) ix
          = (if list_all2 (<) ix (fst old) then get (snd old) ix else Some 0)"
    if w: "list_all2 (<) ix (fst new)" for ix
  proof -
    have "list_all2 (<) ix ?ms" using w mx by (blast intro: within_le)
    from g [OF this] get_slice_low [OF sh _ w] mx show ?thesis by simp
  qed
  with False show ?thesis by (simp add: r)
qed

lemma reconcile_shape: "fst (reconcile new old) = fst new"
proof (cases "fst new = fst old \<or> length (fst new) \<noteq> length (fst old)")
  case True
  then show ?thesis by (auto simp add: reconcile_def)
next
  case False
  then have "length (fst new) = length (fst old)" by simp
  from map2_max_ge [OF this] False show ?thesis by (simp add: reconcile_def Let_def)
qed

lemma reconcile_loop_spec:
  "set els \<subseteq> fst ` set new \<Longrightarrow> distinct els \<Longrightarrow>
   (\<forall>el\<in>set els. \<forall>v. map_of old el = Some v \<longrightarrow> (\<exists>t. v = Tensor t)) \<Longrightarrow>
   \<exists>r. reconcile_loop els (Mapping old) new = Inr r \<and> map fst r = map fst new \<and>
       (\<forall>el. map_of r el =
          (if el \<in> set els then map_option (reconciled old el) (map_of new el)
           else map_of new el))"
proof (induction els arbitrary: new)
  case Nil
  then show ?case by simp
next
  case (Cons el els)
  from Cons.prems(1) obtain tn where tn: "map_of new el = Some tn"
    by (cases "map_of new el") (auto simp add: map_of_eq_None_iff)
  let ?new' = "AList.update el (reconciled old el tn) new"
  have keys: "map fst ?new' = map fst new"
    using tn by (simp add: update_keys map_of_eq_None_iff [symmetric])
  have sub: "set els \<subseteq> fst ` set ?new'"
    using Cons.prems(1) keys by (metis list.set_map set_subset_Cons subset_trans)
  have d: "distinct els" and fresh: "el \<notin> set els" using Cons.prems(2) by simp_all
  have c: "\<forall>el\<in>set els. \<forall>v. map_of old el = Some v \<longrightarrow> (\<exists>t. v = Tensor t)"
    using Cons.prems(3) by simp
  from Cons.IH [OF sub d c] obtain r where
    r: "reconcile_loop els (Mapping old) ?new' = Inr r" and rk: "map fst r = map fst ?new'"
    and rm: "\<forall>e. map_of r e =
          (if e \<in> set els then map_option (reconciled old e) (map_of ?new' e)
           else map_of ?new' e)" by blast
  have step: "reconcile_loop (el # els) (Mapping old) new = reconcile_loop els (Mapping old) ?new'"
  proof (cases "map_of old el")
    case None
    then have "el \<notin> fst ` set old" by (simp add: map_of_eq_None_iff)
    moreover have "?new' = new"
      using None tn by (simp add: reconciled_def update_triv)
    ultimately show ?thesis by (simp add: contains_def bind_err_def)
  next
    case (Some v)
    then have "el \<in> fst ` set old" by (metis map_of_eq_None_iff option.distinct(1))
    moreover from Cons.prems(3) Some obtain t where "v = Tensor t" by auto
    ultimately show ?thesis
      using Some tn by (simp add: contains_def getitem_def bind_err_def reconciled_def)
  qed
  have m: "map_of r e =
          (if e \<in> set (el # els) then map_option (reconciled old e) (map_of new e)
           else map_of new e)" for e
  proof (cases "e = el")
    case True
    with rm fresh tn show ?thesis by (simp add: update_conv')
  next
    case False
    with rm show ?thesis by (simp add: update_conv')
  qed
  from r rk keys m show ?case unfolding step by auto
qed

lemma load_spec:
  assumes u: "unwrap weights = Inr (Mapping old)"
    and d: "distinct (map fst model)"
    and c: "\<forall>el\<in>set (map fst model). \<forall>v. map_of old el = Some v \<longrightarrow> (\<exists>t. v = Tensor t)"
  shows "load_not_compatible_weights model weights
           = Inr (map (\<lambda>(el, new). (el, reconciled old el new)) model)"
proof -
  let ?r = "map (\<lambda>(el, new). (el, reconciled old el new)) model"
  have "set (map fst model) \<subseteq> fst ` set model" by simp
  from reconcile_loop_spec [OF this d c] obtain r where
    r: "reconcile_loop (map fst model) (Mapping old) model = Inr r"
    and rk: "map fst r = map fst model"
    and rm: "\<forall>el. map_of r el =
          (if el \<in> set (map fst model) then map_option (reconciled old el) (map_of model el)
           else map_of model el)" by blast
  have "r = ?r"
  proof (rule assoc_eqI)
    show "map fst r = map fst ?r" using rk by (simp add: comp_def case_prod_beta)
    show "distinct (map fst r)" using rk d by simp
    show "map_of r = map_of ?r"
    proof
      fix el
      have "map_of ?r el = map_option (reconciled old el) (map_of model el)"
        by (induction model) auto
      moreover have "el \<notin> set (map fst model) \<Longrightarrow> map_of model el = None"
        by (simp add: map_of_eq_None_iff)
      ultimately show "map_of r el = map_of ?r el" using rm by auto
    qed
  qed
  have sh: "fst (reconciled old el new) = fst new" for el new
    by (auto simp add: reconciled_def reconcile_shape split: option.splits ckpt.splits)
  have "load_state_dict model ?r = Inr ?r"
    by (simp add: load_state_dict_def comp_def case_prod_beta sh)
  with r \<open>r = ?r\<close> u show ?thesis
    by (simp add: load_not_compatible_weights_def bind_err_def)
qed

lemma map_of_reconciled:
  "map_of (map (\<lambda>(el, new). (el, reconciled old el new)) model) el
     = map_option (reconciled old el) (map_of model el)"
  by (induction model) auto

text \<open>
  C6. For a checkpoint that unwraps to a dictionary holding tensors at the names of the
  model, and a parameter whose name is in it with a source tensor of the same rank: the
  load succeeds, the loaded tensor has the shape of the parameter, it is the source itself
  when the shapes agree, and at every index of the parameter's shape it holds the source's
  entry when the index lies in the source's shape too, and 0 otherwise.
\<close>

theorem weight_reconciliation_copy:
  assumes u: "unwrap weights = Inr (Mapping old)"
    and d: "distinct (map fst model)"
    and c: "\<forall>el\<in>set (map fst model). \<forall>v. map_of old el = Some v \<longrightarrow> (\<exists>t. v = Tensor t)"
    and new: "map_of model el = Some new"
    and src: "map_of old el = Some (Tensor src)"
    and rank: "length (fst new) = length (fst src)"
    and wf: "has_shape (fst src) (snd src)"
  shows "\<exists>r tr. load_not_compatible_weights model weights = Inr r \<and> map_of r el = Some tr \<and>
           fst tr = fst new \<and>
           (fst new = fst src \<longrightarrow> tr = src) \<and>
           (\<forall>ix. list_all2 (<) ix (fst new) \<longrightarrow>
              get (snd tr) ix
                = (if list_all2 (<) ix (fst src) then get (snd src) ix else Some 0))"
proof -
  let ?r = "map (\<lambda>(el, new). (el, reconciled old el new)) model"
  have l: "load_not_compatible_weights model weights = Inr ?r"
    using u d c by (rule load_spec)
  have "map_of ?r el = Some (reconciled old el new)"
    by (simp only: map_of_reconciled new option.map)
  then have m: "map_of ?r el = Some (reconcile new src)"
    by (simp add: reconciled_def src)
  from reconcile_spec [OF wf rank] l m show ?thesis by blast
qed


lemma load_a:
  "load_not_compatible_weights model_a ckpt_a
     = Inr [(''w'', ([4, 3], mat [[1, 2, 3], [4, 5, 6], [0, 0, 0], [0, 0, 0]])),
            (''b'', ([2], Node [Leaf 8, Leaf 8])),
            (''c'', ([1], Node [Leaf 9]))]"
  by code_simp

lemma load_b:
  "load_not_compatible_weights model_b ckpt_b
     = Inr [(''w'', ([2, 3], mat [[1, 2, 3], [4, 5, 6]]))]"
  by code_simp

lemma unwrap_a: "unwrap ckpt_a = Inr (Mapping params_a)"
  by code_simp

lemma unwrap_b: "unwrap ckpt_b = Inr (Mapping params_b)"
  by code_simp

lemma contract_a:
  "\<forall>el\<in>set (map fst model_a). \<forall>v. map_of params_a el = Some v \<longrightarrow> (\<exists>t. v = Tensor t)"
  by (simp add: model_a_def params_a_def)

lemma contract_b:
  "\<forall>el\<in>set (map fst model_b). \<forall>v. map_of params_b el = Some v \<longrightarrow> (\<exists>t. v = Tensor t)"
  by (simp add: model_b_def params_b_def)

theorem weight_reconciliation_copy_witness:
  "unwrap ckpt_a = Inr (Mapping params_a) \<and> distinct (map fst model_a) \<and>
   map_of model_a ''w'' = Some ([4, 3], mat [[7, 7, 7], [7, 7, 7], [7, 7, 7], [7, 7, 7]]) \<and>
   map_of params_a ''w'' = Some (Tensor ([2, 3], mat [[1, 2, 3], [4, 5, 6]])) \<and>
   has_shape [2, 3] (mat [[1, 2, 3], [4, 5, 6]]) \<and>
   (\<exists>r tr. load_not_compatible_weights model_a ckpt_a = Inr r \<and> map_of r ''w'' = Some tr \<and>
      fst tr = [4, 3] \<and> get (snd tr) [1, 2] = Some 6 \<and> get (snd tr) [3, 0] = Some 0) \<and>
   (\<exists>r tr. load_not_compatible_weights model_b ckpt_b = Inr r \<and> map_of r ''w'' = Some tr \<and>
      fst tr = [2, 3] \<and> get (snd tr) [1, 2] = Some 6) \<and>
   load_not_compatible_weights model_a ckpt_a
     = Inr [(''w'', ([4, 3], mat [[1, 2, 3], [4, 5, 6], [0, 0, 0], [0, 0, 0]])),
            (''b'', ([2], Node [Leaf 8, Leaf 8])),
            (''c'', ([1], Node [Leaf 9]))] \<and>
   load_not_compatible_weights model_b ckpt_b
     = Inr [(''w'', ([2, 3], mat [[1, 2, 3], [4, 5, 6]]))]"
proof -
  let ?na = "([4, 3], mat [[7, 7, 7], [7, 7, 7], [7, 7, 7], [7, 7, 7]]) :: tensor"
  let ?sa = "([2, 3], mat [[1, 2, 3], [4, 5, 6]]) :: tensor"
  let ?nb = "([2, 3], mat [[7, 7, 7], [7, 7, 7]]) :: tensor"
  let ?sb = "([4, 3], mat [[1, 2, 3], [4, 5, 6], [7, 8, 9], [10, 11, 12]]) :: tensor"
  have da: "distinct (map fst model_a)" by (simp add: model_a_def)
  have db: "distinct (map fst model_b)" by (simp add: model_b_def)
  have na: "map_of model_a ''w'' = Some ?na" by (simp add: model_a_def)
  have sa: "map_of params_a ''w'' = Some (Tensor ?sa)" by (simp add: params_a_def)
  have nb: "map_of model_b ''w'' = Some ?nb" by (simp add: model_b_def)
  have sb: "map_of params_b ''w'' = Some (Tensor ?sb)" by (simp add: params_b_def)
  have wa: "has_shape (fst ?sa) (snd ?sa)" by (simp add: mat_def)
  have wb: "has_shape (fst ?sb) (snd ?sb)" by (simp add: mat_def)
  from weight_reconciliation_copy [OF unwrap_a da contract_a na sa _ wa]
  obtain ra ta where a: "load_not_compatible_weights model_a ckpt_a = Inr ra"
    "map_of ra ''w'' = Some ta" "fst ta = [4, 3]"
    and ga: "\<forall>ix. list_all2 (<) ix (fst ?na) \<longrightarrow>
              get (snd ta) ix
                = (if list_all2 (<) ix (fst ?sa) then get (snd ?sa) ix else Some 0)"
    by auto
  from ga [rule_format, of "[1, 2]"] have a1: "get (snd ta) [1, 2] = Some 6"
    by (simp add: mat_def)
  from ga [rule_format, of "[3, 0]"] have a2: "get (snd ta) [3, 0] = Some 0"
    by (simp add: mat_def)
  from weight_reconciliation_copy [OF unwrap_b db contract_b nb sb _ wb]
  obtain rb tb where b: "load_not_compatible_weights model_b ckpt_b = Inr rb"
    "map_of rb ''w'' = Some tb" "fst tb = [2, 3]"
    and gb: "\<forall>ix. list_all2 (<) ix (fst ?nb) \<longrightarrow>
              get (snd tb) ix
                = (if list_all2 (<) ix (fst ?sb) then get (snd ?sb) ix else Some 0)"
    by auto
  from gb [rule_format, of "[1, 2]"] have b1: "get (snd tb) [1, 2] = Some 6"
    by (simp add: mat_def)
  have ea: "\<exists>r tr. load_not_compatible_weights model_a ckpt_a = Inr r \<and> map_of r ''w'' = Some tr \<and>
      fst tr = [4, 3] \<and> get (snd tr) [1, 2] = Some 6 \<and> get (snd tr) [3, 0] = Some 0"
    using a a1 a2 by blast
  have eb: "\<exists>r tr. load_not_compatible_weights model_b ckpt_b = Inr r \<and> map_of r ''w'' = Some tr \<and>
      fst tr = [2, 3] \<and> get (snd tr) [1, 2] = Some 6"
    using b b1 by blast
  have wa': "has_shape [2, 3] (mat [[1, 2, 3], [4, 5, 6]])" using wa by simp
  from unwrap_a da na sa wa' ea eb load_a load_b show ?thesis by (intro conjI)
qed


subsection \<open>The loop returns a state for a backend within its contract\<close>

text \<open>
  On a well-formed buffer the paddings of the loop never fail, so a run stops early only
  on a backend output of the wrong shape; with \<open>step \<ge> 1\<close> and a backend within its
  contract the loop returns its final state.
\<close>

lemma identity_backend_ok:
  "p_num_instruments p = 1 \<Longrightarrow> backend_ok p nch identity_model"
  by (auto simp add: backend_ok_def identity_model_def has_shape4_def has_shape3_def
      part_ok_def list_all_iff)

lemma length_reflect:
  "r < length xs \<Longrightarrow> length (reflect 0 r xs) = length xs + r"
  by (simp add: reflect_def)

lemma padded_part_ok:
  assumes wf: "wf_mix mix" and lt: "idx st < nsamples mix"
  shows "\<exists>part.
     (if p_mode p = Generic \<and>
         p_chunk_size p div 2 < nsamples (map (\<lambda>c. take (p_chunk_size p) (drop (idx st) c)) mix)
      then pad_reflect 0
             (p_chunk_size p - nsamples (map (\<lambda>c. take (p_chunk_size p) (drop (idx st) c)) mix))
             (map (\<lambda>c. take (p_chunk_size p) (drop (idx st) c)) mix)
      else Inr (pad_constant 0
             (p_chunk_size p - nsamples (map (\<lambda>c. take (p_chunk_size p) (drop (idx st) c)) mix))
             (map (\<lambda>c. take (p_chunk_size p) (drop (idx st) c)) mix))) = Inr part \<and>
     part_ok p (length mix) part"
proof -
  let ?C = "p_chunk_size p"
  let ?part = "map (\<lambda>c. take ?C (drop (idx st) c)) mix"
  let ?n = "min ?C (nsamples mix - idx st)"
  from wf have ne: "mix \<noteq> []" and all: "\<forall>c\<in>set mix. length c = nsamples mix"
    by (simp_all add: wf_mix_def list_all_iff)
  have n: "nsamples ?part = ?n" using ne by (rule nsamples_part)
  have ch: "\<forall>c\<in>set ?part. length c = ?n" using all by (auto simp add: min.commute)
  show ?thesis
  proof (cases "p_mode p = Generic \<and> ?C div 2 < ?n")
    case True
    then have small: "?C - ?n < ?n" by linarith
    then have pos: "0 < ?n" by linarith
    have "pad_reflect 0 (?C - ?n) ?part = Inr (map (reflect 0 (?C - ?n)) ?part)"
      using small pos by (simp add: pad_reflect_def n)
    moreover have "part_ok p (length mix) (map (reflect 0 (?C - ?n)) ?part)"
    proof -
      have "length (reflect 0 (?C - ?n) c) = ?C" if "c \<in> set ?part" for c
      proof -
        from that ch have l: "length c = ?n" by blast
        with small have "?C - ?n < length c" by simp
        from length_reflect [OF this] l show ?thesis by simp
      qed
      then show ?thesis by (simp add: part_ok_def list_all_iff)
    qed
    ultimately show ?thesis using True by (auto simp add: n)
  next
    case False
    have "part_ok p (length mix) (pad_constant 0 (?C - ?n) ?part)"
      using ch by (auto simp add: part_ok_def pad_constant_def list_all_iff)
    then show ?thesis using False by (auto simp add: n)
  qed
qed

lemma demix_step_returns:
  assumes wf: "wf_mix mix" and lt: "idx st < nsamples mix"
    and be: "backend_ok p (length mix) model"
    and bd: "list_all (part_ok p (length mix)) (batch_data st)"
  shows "\<exists>st'. demix_step p model mix st = Inr st' \<and>
              list_all (part_ok p (length mix)) (batch_data st')"
proof -
  from padded_part_ok [OF wf lt, of p] obtain part where
    pad: "(if p_mode p = Generic \<and>
         p_chunk_size p div 2 < nsamples (map (\<lambda>c. take (p_chunk_size p) (drop (idx st) c)) mix)
      then pad_reflect 0
             (p_chunk_size p - nsamples (map (\<lambda>c. take (p_chunk_size p) (drop (idx st) c)) mix))
             (map (\<lambda>c. take (p_chunk_size p) (drop (idx st) c)) mix)
      else Inr (pad_constant 0
             (p_chunk_size p - nsamples (map (\<lambda>c. take (p_chunk_size p) (drop (idx st) c)) mix))
             (map (\<lambda>c. take (p_chunk_size p) (drop (idx st) c)) mix))) = Inr part"
    and ok: "part_ok p (length mix) part" by blast
  have all: "list_all (part_ok p (length mix)) (batch_data st @ [part])"
    using bd ok by simp
  from be all have sh: "has_shape4 (length (batch_data st @ [part])) (p_num_instruments p)
      (length mix) (p_chunk_size p) (model (batch_data st @ [part]))"
    unfolding backend_ok_def by blast
  show ?thesis
    unfolding demix_step_def Let_def pad bind_err_def
    using sh all by (simp split: if_splits)
qed

lemma loop_fuel_returns_state:
  assumes wf: "wf_mix mix" and be: "backend_ok p (length mix) model" and s: "1 \<le> p_step p"
  shows "list_all (part_ok p (length mix)) (batch_data st) \<Longrightarrow>
         nsamples mix \<le> idx st + n * p_step p \<Longrightarrow>
         \<exists>st'. demix_loop_fuel n p model mix st = Some (Inr st')"
proof (induction n arbitrary: st)
  case 0
  then show ?case by simp
next
  case (Suc n)
  show ?case
  proof (cases "idx st < nsamples mix")
    case False
    then show ?thesis by simp
  next
    case True
    from demix_step_returns [OF wf True be Suc.prems(1)] obtain st1 where
      st1: "demix_step p model mix st = Inr st1"
      and b1: "list_all (part_ok p (length mix)) (batch_data st1)" by blast
    have "nsamples mix \<le> idx st1 + n * p_step p"
      using Suc.prems(2) demix_step_idx [OF st1] by simp
    from Suc.IH [OF b1 this] True st1 show ?thesis by simp
  qed
qed

lemma chunk_loop_returns_state:
  assumes wf: "wf_mix mix" and be: "backend_ok p (length mix) model" and s: "1 \<le> p_step p"
  shows "\<exists>st. demix_loop p model mix (init_state p mix) = Some (Inr st)"
proof -
  let ?n = "(nsamples mix + p_step p - 1) div p_step p"
  have b: "list_all (part_ok p (length mix)) (batch_data (init_state p mix))"
    by (simp add: init_state_def)
  have "nsamples mix \<le> idx (init_state p mix) + ?n * p_step p"
    using ceil_mult [OF s, of "nsamples mix"] by (simp add: init_state_def)
  from loop_fuel_returns_state [OF wf be s b this] obtain st where
    "demix_loop_fuel ?n p model mix (init_state p mix) = Some (Inr st)" by blast
  from fuel_loop [OF this] show ?thesis by blast
qed

end
